theory Spec2Isabelle
  imports Main "HOL-Library.Word"
begin

section \<open>The single-pass compiler of go-blue (src/compiler/compiler.go)\<close>

text \<open>
  The compiler drives a pull-based token source and writes bytecode into a chunk.  The model
  follows \<^verbatim>\<open>compiler.go\<close> method by method.  The compiler is a record that every method
  takes and returns; what the Go code prints on \<^verbatim>\<open>os.Stderr\<close> is a field of that record; a
  Go panic is the left summand of the result; the recursion of the expression parser is
  bounded by a fuel argument, and running out of fuel is the value \<open>None\<close>.

  Names: the Go code has \<^verbatim>\<open>parser.Return\<close> (a token type) next to \<^verbatim>\<open>Return\<close> (an opcode),
  and several names of both enumerations are constants of HOL (\<open>True\<close>, \<open>False\<close>, \<open>Nil\<close>,
  \<open>Not\<close>).  Token types are therefore written \<open>T\<close>\<^emph>\<open>Name\<close> for \<^verbatim>\<open>parser.\<close>\<^emph>\<open>Name\<close> and opcodes
  \<open>Op\<close>\<^emph>\<open>Name\<close> for \<^emph>\<open>Name\<close>.
\<close>

subsection \<open>Tokens and the token source\<close>

text \<open>
  Modelled from the spec: package \<^verbatim>\<open>parser\<close> is not part of the sources at hand.  The token
  types are the ones section 6 of the specification lists; a token carries a type, a lexeme
  and a line.
\<close>

datatype TokenType =
    TEof | TNewline | TError | TNumber | TString
  | TTrue | TFalse | TNil | TReturn | TFn
  | TPlus | TMinus | TStar | TSlash | TCaret | TPercent | TBang
  | TEqual | TEqualEqual | TBangEqual
  | TLess | TLessEqual | TGreater | TGreaterEqual
  | TLeftParen | TRightParen | TLeftBrace | TRightBrace | TSemicolon | TDot

record Token =
  Type :: TokenType
  Lexeme :: string
  Line :: int

text \<open>
  Modelled from the spec: the token source (\<^verbatim>\<open>parser.Parser\<close>) holds the current and the
  previous token and yields the tokens of the source text one by one.  The tokens still to
  come are the list \<open>upcoming\<close>; once it is exhausted every further request yields an
  end-of-input token.
\<close>

record Parser =
  current :: Token
  previous :: Token
  upcoming :: "Token list"

text \<open>
  Modelled from the spec: the end-of-input token that the exhausted token source yields, and
  \<^verbatim>\<open>NextToken\<close>, which hands out the next token of the list.
\<close>

definition eofToken :: Token where
  "eofToken = \<lparr>Type = TEof, Lexeme = [], Line = 0\<rparr>"

definition NextToken :: "Parser \<Rightarrow> Token \<times> Parser" where
  "NextToken ps = (case upcoming ps of
       [] \<Rightarrow> (eofToken, ps)
     | t # ts \<Rightarrow> (t, ps\<lparr>upcoming := ts\<rparr>))"

text \<open>Modelled from the spec: the setters of the token source, which only store the token.\<close>

definition SetCurrent :: "Parser \<Rightarrow> Token \<Rightarrow> Parser" where
  "SetCurrent ps t = ps\<lparr>current := t\<rparr>"

definition SetPrevious :: "Parser \<Rightarrow> Token \<Rightarrow> Parser" where
  "SetPrevious ps t = ps\<lparr>previous := t\<rparr>"

subsection \<open>Chunks and opcodes\<close>

text \<open>
  Modelled from the spec: the opcode enumeration and the chunk live in a file that is not
  at hand.  Section 3 lists the opcodes, each a single byte; \<open>uint8\<close> numbers them in the
  order of that list.  A chunk owns the code bytes and the constant pool; \<open>pushCode\<close>
  appends a byte, \<open>pushConstant\<close> appends a value and returns its 16-bit index.
\<close>

datatype OpCode =
    OpConstant | OpNil | OpTrue | OpFalse | OpPop | OpReturn | OpNegate | OpNot
  | OpAdd | OpSubtract | OpMultiply | OpDivide | OpExponentiate | OpReminder
  | OpEqual | OpNotEqual | OpGreater | OpGreaterEqual | OpLess | OpLessEqual

text \<open>
  Modelled from the spec: the byte of an opcode, \<^verbatim>\<open>uint8(opCode)\<close>, its position in the list
  of section 3.
\<close>

fun uint8 :: "OpCode \<Rightarrow> 8 word" where
  "uint8 OpConstant = 0"
| "uint8 OpNil = 1"
| "uint8 OpTrue = 2"
| "uint8 OpFalse = 3"
| "uint8 OpPop = 4"
| "uint8 OpReturn = 5"
| "uint8 OpNegate = 6"
| "uint8 OpNot = 7"
| "uint8 OpAdd = 8"
| "uint8 OpSubtract = 9"
| "uint8 OpMultiply = 10"
| "uint8 OpDivide = 11"
| "uint8 OpExponentiate = 12"
| "uint8 OpReminder = 13"
| "uint8 OpEqual = 14"
| "uint8 OpNotEqual = 15"
| "uint8 OpGreater = 16"
| "uint8 OpGreaterEqual = 17"
| "uint8 OpLess = 18"
| "uint8 OpLessEqual = 19"

text \<open>
  The runtime values the compiler builds: a number (the 64-bit float that
  \<^verbatim>\<open>strconv.ParseFloat\<close> returns, of a type \<open>'f\<close> left open) or a string.
\<close>

datatype 'f Value = Number 'f | String string

record 'f Chunk =
  code :: "8 word list"
  constants :: "'f Value list"

text \<open>
  Modelled from the spec: a chunk is created empty; \<^verbatim>\<open>pushCode\<close> and \<^verbatim>\<open>pushConstant\<close> append,
  and the index that \<^verbatim>\<open>pushConstant\<close> returns is the position of the new entry as an unsigned
  16-bit number.
\<close>

definition NewChunk :: "'f Chunk" where
  "NewChunk = \<lparr>code = [], constants = []\<rparr>"

definition pushCode :: "'f Chunk \<Rightarrow> 8 word \<Rightarrow> 'f Chunk" where
  "pushCode ch b = ch\<lparr>code := code ch @ [b]\<rparr>"

definition pushConstant :: "'f Chunk \<Rightarrow> 'f Value \<Rightarrow> 16 word \<times> 'f Chunk" where
  "pushConstant ch v = (word_of_nat (length (constants ch)), ch\<lparr>constants := constants ch @ [v]\<rparr>)"

subsection \<open>Precedence levels and the parse-rule table\<close>

text \<open>
  Modelled from the spec: the precedence levels are an enumeration in the order
  None, Assignment, Equality, Comparison, Term, Factor, Exponent, Unary, Primary.  The code
  compares levels with \<^verbatim>\<open><\<close> and adds one to a level, so a level is a number.
\<close>

type_synonym Precedence = nat

definition PrecedenceNone :: Precedence where "PrecedenceNone = 0"
definition PrecedenceAssignment :: Precedence where "PrecedenceAssignment = 1"
definition PrecedenceEquality :: Precedence where "PrecedenceEquality = 2"
definition PrecedenceComparison :: Precedence where "PrecedenceComparison = 3"
definition PrecedenceTerm :: Precedence where "PrecedenceTerm = 4"
definition PrecedenceFactor :: Precedence where "PrecedenceFactor = 5"
definition PrecedenceExponent :: Precedence where "PrecedenceExponent = 6"
definition PrecedenceUnary :: Precedence where "PrecedenceUnary = 7"
definition PrecedencePrimary :: Precedence where "PrecedencePrimary = 8"

text \<open>
  A parse rule holds two function values, each possibly \<^verbatim>\<open>nil\<close>, and a level.  The
  functions of that signature in \<^verbatim>\<open>compiler.go\<close> are the five methods named here.
\<close>

datatype ParseFn = UnaryFn | BinaryFn | NumberFn | StringFn | LiteralFn

record ParseRule =
  prefixRule :: "ParseFn option"
  infixRule :: "ParseFn option"
  precedence :: Precedence

text \<open>
  The table \<^verbatim>\<open>parseRules\<close> and the float parser \<^verbatim>\<open>strconv.ParseFloat\<close> are not at hand: the
  model takes both as parameters, in one record.  \<open>ParseFloat\<close> yields \<open>None\<close> where the Go
  function returns an error.
\<close>

record 'f Env =
  parseRules :: "TokenType \<Rightarrow> ParseRule"
  ParseFloat :: "string \<Rightarrow> 'f option"

subsection \<open>The compiler state and its diagnostics\<close>

text \<open>
  One diagnostic is what one call of \<open>errorAt\<close> prints: the line, the phrase that locates
  the token, and the message.
\<close>

record Diagnostic =
  atLine :: int
  atWhere :: string
  message :: string

record 'f Compiler =
  p :: Parser
  chunk :: "'f Chunk"
  hadError :: bool
  panicMode :: bool
  stderr :: "Diagnostic list"

text \<open>
  \<^verbatim>\<open>NewCompiler\<close> builds the token source from the source text; here it takes the token
  source as it stands before the first token is requested.
\<close>

definition NewCompiler :: "Parser \<Rightarrow> 'f Compiler" where
  "NewCompiler ps = \<lparr>p = ps, chunk = NewChunk, hadError = False, panicMode = False, stderr = []\<rparr>"

datatype Panic = IndexOutOfRange | SliceBoundsOutOfRange | NilFunction | Unreachable | ParseFloatError

definition errorAt :: "'f Compiler \<Rightarrow> Token \<Rightarrow> string \<Rightarrow> 'f Compiler" where
  "errorAt c token msg =
     (if panicMode c then c
      else c\<lparr>panicMode := True,
             stderr := stderr c @
               [\<lparr>atLine = Line token,
                 atWhere = (case Type token of
                     TEof \<Rightarrow> '' at end''
                   | TNewline \<Rightarrow> '' at newline''
                   | _ \<Rightarrow> '' at '' @ [CHR 39] @ Lexeme token @ [CHR 39]),
                 message = msg\<rparr>],
             hadError := True\<rparr>)"

definition error :: "'f Compiler \<Rightarrow> string \<Rightarrow> 'f Compiler" where
  "error c msg = errorAt c (previous (p c)) msg"

definition errorAtCurrent :: "'f Compiler \<Rightarrow> string \<Rightarrow> 'f Compiler" where
  "errorAtCurrent c msg = errorAt c (current (p c)) msg"

subsection \<open>Emitting code\<close>

definition emitByte :: "'f Compiler \<Rightarrow> 8 word \<Rightarrow> 'f Compiler" where
  "emitByte c b = c\<lparr>chunk := pushCode (chunk c) b\<rparr>"

definition emitShort :: "'f Compiler \<Rightarrow> 16 word \<Rightarrow> 'f Compiler" where
  "emitShort c short =
     (let c = c\<lparr>chunk := pushCode (chunk c) (ucast (and (drop_bit 8 short) 0xff))\<rparr>
      in c\<lparr>chunk := pushCode (chunk c) (ucast (and short 0xff))\<rparr>)"

definition emitOpCode :: "'f Compiler \<Rightarrow> OpCode \<Rightarrow> 'f Compiler" where
  "emitOpCode c opCode = c\<lparr>chunk := pushCode (chunk c) (uint8 opCode)\<rparr>"

definition emitConstant :: "'f Compiler \<Rightarrow> 'f Value \<Rightarrow> 'f Compiler" where
  "emitConstant c v =
     (let (constant, ch) = pushConstant (chunk c) v;
          c = c\<lparr>chunk := ch\<rparr>;
          c = emitOpCode c OpConstant
      in emitShort c constant)"

definition emitReturn :: "'f Compiler \<Rightarrow> 'f Compiler" where
  "emitReturn c = emitOpCode (emitOpCode c OpNil) OpReturn"

subsection \<open>Moving through the tokens\<close>

text \<open>
  \<open>consumeNewlines\<close> is the loop \<^verbatim>\<open>for c.p.Current().Type() == parser.Newline\<close>.  It ends
  because every round takes a token from the finite list, or finds the list empty and gets
  an end-of-input token.
\<close>

function consumeNewlines :: "'f Compiler \<Rightarrow> 'f Compiler" where
  "consumeNewlines c =
     (if Type (current (p c)) = TNewline
      then (let (t, ps) = NextToken (p c) in consumeNewlines (c\<lparr>p := SetCurrent ps t\<rparr>))
      else c)"
  by pat_completeness auto
termination
  by (relation "measure (\<lambda>c. 2 * length (upcoming (p c)) +
                           (if Type (current (p c)) = TNewline then 1 else 0))")
     (auto simp: NextToken_def SetCurrent_def eofToken_def split: list.splits)

declare consumeNewlines.simps [simp del]

definition skipNewlines :: "'f Compiler \<Rightarrow> 'f Compiler" where
  "skipNewlines c =
     (case Type (previous (p c)) of
        TNewline \<Rightarrow> consumeNewlines c
      | TLeftBrace \<Rightarrow> consumeNewlines c
      | TRightBrace \<Rightarrow> consumeNewlines c
      | TSemicolon \<Rightarrow> consumeNewlines c
      | TDot \<Rightarrow> consumeNewlines c
      | _ \<Rightarrow> c)"

text \<open>
  The loop of \<open>advance\<close>: request a token, stop unless it is an error token, report it
  otherwise.  An error token comes from the list, so the list gets shorter.
\<close>

function advanceLoop :: "'f Compiler \<Rightarrow> 'f Compiler" where
  "advanceLoop c =
     (let (t, ps) = NextToken (p c);
          c = c\<lparr>p := SetCurrent ps t\<rparr>
      in if Type (current (p c)) \<noteq> TError then c
         else advanceLoop (errorAtCurrent c (Lexeme (current (p c)))))"
  by pat_completeness auto
termination
  by (relation "measure (\<lambda>c. length (upcoming (p c)))")
     (auto simp: NextToken_def SetCurrent_def eofToken_def errorAtCurrent_def errorAt_def
           split: list.splits)

declare advanceLoop.simps [simp del]

definition advance :: "'f Compiler \<Rightarrow> 'f Compiler" where
  "advance c =
     (let c = c\<lparr>p := SetPrevious (p c) (current (p c))\<rparr>;
          c = advanceLoop c
      in skipNewlines c)"

definition check :: "'f Compiler \<Rightarrow> TokenType \<Rightarrow> bool" where
  "check c tokenType =
     (if tokenType = TNewline \<and> Type (previous (p c)) = TRightBrace then True
      else Type (current (p c)) = tokenType)"

definition consume :: "'f Compiler \<Rightarrow> TokenType \<Rightarrow> string \<Rightarrow> 'f Compiler" where
  "consume c tokenType msg =
     (if check c tokenType then advance c else errorAtCurrent c msg)"

definition match :: "'f Compiler \<Rightarrow> TokenType \<Rightarrow> bool \<times> 'f Compiler" where
  "match c tokenType =
     (if \<not> check c tokenType then (False, c) else (True, advance c))"

definition expectNewlineOrSemicolon :: "'f Compiler \<Rightarrow> 'f Compiler" where
  "expectNewlineOrSemicolon c =
     (if Type (previous (p c)) = TRightBrace then c
      else if Type (current (p c)) = TRightBrace then c
      else if Type (previous (p c)) = TEof \<or> Type (current (p c)) = TEof then c
      else (let (m, c) = match c TSemicolon
            in if \<not> m then consume c TNewline ''Expect newline or ';'.'' else c))"

subsection \<open>What moving through the tokens changes\<close>

text \<open>
  The token movements leave the chunk alone, never put a token back, and \<open>advance\<close> makes
  the current token the previous one.  The termination of the driver's first loop and the
  frame conditions of the parser rest on these facts.
\<close>

lemma errorAt_p [simp]: "p (errorAt c t m) = p c"
  by (simp add: errorAt_def)

lemma errorAt_chunk [simp]: "chunk (errorAt c t m) = chunk c"
  by (simp add: errorAt_def)

lemma consumeNewlines_stop: "Type (current (p c)) \<noteq> TNewline \<Longrightarrow> consumeNewlines c = c"
  by (subst consumeNewlines.simps) simp

lemma consumeNewlines_nil:
  "Type (current (p c)) = TNewline \<Longrightarrow> upcoming (p c) = [] \<Longrightarrow>
   consumeNewlines c = c\<lparr>p := (p c)\<lparr>current := eofToken\<rparr>\<rparr>"
  by (subst consumeNewlines.simps)
     (simp add: NextToken_def SetCurrent_def consumeNewlines_stop eofToken_def)

lemma consumeNewlines_cons:
  "Type (current (p c)) = TNewline \<Longrightarrow> upcoming (p c) = t # ts \<Longrightarrow>
   consumeNewlines c = consumeNewlines (c\<lparr>p := (p c)\<lparr>upcoming := ts, current := t\<rparr>\<rparr>)"
  by (subst consumeNewlines.simps) (simp add: NextToken_def SetCurrent_def)

lemma advanceLoop_nil:
  "upcoming (p c) = [] \<Longrightarrow> advanceLoop c = c\<lparr>p := (p c)\<lparr>current := eofToken\<rparr>\<rparr>"
  by (subst advanceLoop.simps) (simp add: NextToken_def SetCurrent_def eofToken_def)

lemma advanceLoop_cons:
  "upcoming (p c) = t # ts \<Longrightarrow>
   advanceLoop c =
     (if Type t \<noteq> TError then c\<lparr>p := (p c)\<lparr>upcoming := ts, current := t\<rparr>\<rparr>
      else advanceLoop (errorAt (c\<lparr>p := (p c)\<lparr>upcoming := ts, current := t\<rparr>\<rparr>) t (Lexeme t)))"
  by (subst advanceLoop.simps) (simp add: NextToken_def SetCurrent_def errorAtCurrent_def)


lemma consumeNewlines_props:
  "chunk (consumeNewlines c) = chunk c \<and>
   hadError (consumeNewlines c) = hadError c \<and>
   panicMode (consumeNewlines c) = panicMode c \<and>
   stderr (consumeNewlines c) = stderr c \<and>
   previous (p (consumeNewlines c)) = previous (p c) \<and>
   length (upcoming (p (consumeNewlines c))) \<le> length (upcoming (p c)) \<and>
   set (upcoming (p (consumeNewlines c))) \<subseteq> set (upcoming (p c)) \<and>
   current (p (consumeNewlines c)) \<in> insert (current (p c)) (insert eofToken (set (upcoming (p c)))) \<and>
   Type (current (p (consumeNewlines c))) \<noteq> TNewline"
proof (induction "upcoming (p c)" arbitrary: c)
  case Nil
  then show ?case
    by (cases "Type (current (p c)) = TNewline")
       (auto simp: consumeNewlines_nil consumeNewlines_stop eofToken_def)
next
  case (Cons t ts)
  show ?case
  proof (cases "Type (current (p c)) = TNewline")
    case True
    let ?c = "c\<lparr>p := (p c)\<lparr>upcoming := ts, current := t\<rparr>\<rparr>"
    have eq: "consumeNewlines c = consumeNewlines ?c"
      using True Cons(2) by (simp add: consumeNewlines_cons)
    have "ts = upcoming (p ?c)" by simp
    from Cons(1)[OF this] show ?thesis
      unfolding eq using Cons(2)[symmetric] by auto
  next
    case False
    then show ?thesis by (simp add: consumeNewlines_stop)
  qed
qed

lemma skipNewlines_props:
  "chunk (skipNewlines c) = chunk c \<and>
   hadError (skipNewlines c) = hadError c \<and>
   panicMode (skipNewlines c) = panicMode c \<and>
   stderr (skipNewlines c) = stderr c \<and>
   previous (p (skipNewlines c)) = previous (p c) \<and>
   length (upcoming (p (skipNewlines c))) \<le> length (upcoming (p c)) \<and>
   set (upcoming (p (skipNewlines c))) \<subseteq> set (upcoming (p c)) \<and>
   current (p (skipNewlines c)) \<in> insert (current (p c)) (insert eofToken (set (upcoming (p c))))"
  using consumeNewlines_props[of c]
  by (cases "Type (previous (p c))") (simp_all add: skipNewlines_def)

lemma advanceLoop_props:
  "chunk (advanceLoop c) = chunk c \<and>
   previous (p (advanceLoop c)) = previous (p c) \<and>
   set (upcoming (p (advanceLoop c))) \<subseteq> set (upcoming (p c)) \<and>
   current (p (advanceLoop c)) \<in> insert eofToken (set (upcoming (p c))) \<and>
   Type (current (p (advanceLoop c))) \<noteq> TError \<and>
   (upcoming (p c) = [] \<longrightarrow> upcoming (p (advanceLoop c)) = [] \<and> current (p (advanceLoop c)) = eofToken) \<and>
   (upcoming (p c) \<noteq> [] \<longrightarrow> length (upcoming (p (advanceLoop c))) < length (upcoming (p c)))"
proof (induction "upcoming (p c)" arbitrary: c)
  case Nil
  then show ?case by (simp add: advanceLoop_nil eofToken_def)
next
  case (Cons t ts)
  show ?case
  proof (cases "Type t = TError")
    case True
    let ?c = "errorAt (c\<lparr>p := (p c)\<lparr>upcoming := ts, current := t\<rparr>\<rparr>) t (Lexeme t)"
    have eq: "advanceLoop c = advanceLoop ?c"
      using True Cons(2)[symmetric] by (simp add: advanceLoop_cons)
    have "ts = upcoming (p ?c)" by simp
    from Cons(1)[OF this] show ?thesis
      unfolding eq using Cons(2)[symmetric] by (cases ts) auto
  next
    case False
    then show ?thesis using Cons(2)[symmetric] by (auto simp add: advanceLoop_cons)
  qed
qed

lemma advance_props:
  "chunk (advance c) = chunk c \<and>
   previous (p (advance c)) = current (p c) \<and>
   set (upcoming (p (advance c))) \<subseteq> set (upcoming (p c)) \<and>
   current (p (advance c)) \<in> insert eofToken (set (upcoming (p c))) \<and>
   (upcoming (p c) = [] \<longrightarrow> upcoming (p (advance c)) = [] \<and> current (p (advance c)) = eofToken) \<and>
   (upcoming (p c) \<noteq> [] \<longrightarrow> length (upcoming (p (advance c))) < length (upcoming (p c)))"
proof -
  let ?c1 = "c\<lparr>p := SetPrevious (p c) (current (p c))\<rparr>"
  let ?c2 = "advanceLoop ?c1"
  have a: "advance c = skipNewlines ?c2" by (simp add: advance_def Let_def)
  have u1: "upcoming (p ?c1) = upcoming (p c)" "previous (p ?c1) = current (p c)" "chunk ?c1 = chunk c"
    by (simp_all add: SetPrevious_def)
  note l = advanceLoop_props[of ?c1, unfolded u1]
  note s = skipNewlines_props[of ?c2]
  show ?thesis unfolding a using l s by (cases "upcoming (p c) = []") auto
qed

text \<open>
  The first loop of \<^verbatim>\<open>Compile\<close>: \<^verbatim>\<open>for true { c.advance(); if !c.check(parser.Newline) { break } }\<close>.
  A round takes a token from the list; on the empty list the next round sees an end-of-input
  token as the previous one and stops.
\<close>

function leadingLoop :: "'f Compiler \<Rightarrow> 'f Compiler" where
  "leadingLoop c =
     (let c = advance c
      in if \<not> check c TNewline then c else leadingLoop c)"
  by pat_completeness auto
termination
proof (relation "measure (\<lambda>c. 2 * length (upcoming (p c)) +
                            (if Type (current (p c)) = TRightBrace then 1 else 0))")
  show "wf (measure (\<lambda>c::'f Compiler. 2 * length (upcoming (p c)) +
                            (if Type (current (p c)) = TRightBrace then 1 else 0)))"
    by simp
next
  fix c x :: "'f Compiler"
  assume x: "x = advance c" and chk: "\<not> \<not> check x TNewline"
  note a = advance_props[of c, folded x]
  show "(x, c) \<in> measure (\<lambda>c. 2 * length (upcoming (p c)) +
                            (if Type (current (p c)) = TRightBrace then 1 else 0))"
  proof (cases "upcoming (p c) = []")
    case True
    with a have "upcoming (p x) = []" "current (p x) = eofToken" "previous (p x) = current (p c)"
      by simp_all
    with chk show ?thesis by (simp add: check_def eofToken_def split: if_splits)
  next
    case False
    with a have "length (upcoming (p x)) < length (upcoming (p c))" by simp
    then show ?thesis by simp
  qed
qed

declare leadingLoop.simps [simp del]

subsection \<open>Results, panics and fuel\<close>

text \<open>
  A method that can panic or recurse returns \<open>None\<close> when the fuel is used up,
  \<open>Some (Inl e)\<close> when the Go code panics and \<open>Some (Inr x)\<close> when it returns \<open>x\<close>.
\<close>

type_synonym 'a Result = "(Panic + 'a) option"

definition andThen :: "'a Result \<Rightarrow> ('a \<Rightarrow> 'b Result) \<Rightarrow> 'b Result" where
  "andThen r f = (case r of None \<Rightarrow> None | Some (Inl e) \<Rightarrow> Some (Inl e) | Some (Inr x) \<Rightarrow> f x)"

subsection \<open>The parse functions\<close>

text \<open>
  The methods \<open>unary\<close> and \<open>binary\<close> call \<open>parsePrecedence\<close>; here they take that method as
  the argument \<open>pp\<close>, which \<open>parsePrecedence\<close> instantiates with itself on less fuel.
\<close>

definition unary :: "(Precedence \<Rightarrow> 'f Compiler \<Rightarrow> 'f Compiler Result) \<Rightarrow> bool \<Rightarrow> 'f Compiler \<Rightarrow> 'f Compiler Result" where
  "unary pp canAssign c =
     (let operatorType = Type (previous (p c))
      in andThen (pp PrecedenceUnary c) (\<lambda>c.
           case operatorType of
             TBang \<Rightarrow> Some (Inr (emitOpCode c OpNot))
           | TMinus \<Rightarrow> Some (Inr (emitOpCode c OpNegate))
           | _ \<Rightarrow> Some (Inl Unreachable)))"

definition binaryOpCode :: "TokenType \<Rightarrow> OpCode option" where
  "binaryOpCode operatorType =
     (case operatorType of
        TEqualEqual \<Rightarrow> Some OpEqual
      | TGreater \<Rightarrow> Some OpGreater
      | TGreaterEqual \<Rightarrow> Some OpGreaterEqual
      | TLess \<Rightarrow> Some OpLess
      | TLessEqual \<Rightarrow> Some OpLessEqual
      | TBangEqual \<Rightarrow> Some OpNotEqual
      | TPlus \<Rightarrow> Some OpAdd
      | TMinus \<Rightarrow> Some OpSubtract
      | TSlash \<Rightarrow> Some OpDivide
      | TStar \<Rightarrow> Some OpMultiply
      | TCaret \<Rightarrow> Some OpExponentiate
      | TPercent \<Rightarrow> Some OpReminder
      | _ \<Rightarrow> None)"

definition binary :: "'f Env \<Rightarrow> (Precedence \<Rightarrow> 'f Compiler \<Rightarrow> 'f Compiler Result) \<Rightarrow> bool \<Rightarrow> 'f Compiler \<Rightarrow> 'f Compiler Result" where
  "binary E pp canAssign c =
     (let operatorType = Type (previous (p c));
          rule = parseRules E operatorType
      in andThen (pp (precedence rule + 1) c) (\<lambda>c.
           case binaryOpCode operatorType of
             Some opCode \<Rightarrow> Some (Inr (emitOpCode c opCode))
           | None \<Rightarrow> Some (Inr c)))"

definition number :: "'f Env \<Rightarrow> bool \<Rightarrow> 'f Compiler \<Rightarrow> 'f Compiler Result" where
  "number E canAssign c =
     (let lexeme = Lexeme (previous (p c))
      in case ParseFloat E lexeme of
           None \<Rightarrow> Some (Inl ParseFloatError)
         | Some n \<Rightarrow> Some (Inr (emitConstant c (Number n))))"

text \<open>
  The slice \<^verbatim>\<open>lexeme[1 : len(lexeme)-1]\<close> panics unless the lexeme has two bytes at least.
\<close>

definition string :: "bool \<Rightarrow> 'f Compiler \<Rightarrow> 'f Compiler Result" where
  "string canAssign c =
     (let lexeme = Lexeme (previous (p c))
      in if length lexeme < 2 then Some (Inl SliceBoundsOutOfRange)
         else Some (Inr (emitConstant c (String (take (length lexeme - 2) (drop 1 lexeme))))))"

definition literal :: "bool \<Rightarrow> 'f Compiler \<Rightarrow> 'f Compiler Result" where
  "literal canAssign c =
     (case Type (previous (p c)) of
        TFalse \<Rightarrow> Some (Inr (emitOpCode c OpFalse))
      | TTrue \<Rightarrow> Some (Inr (emitOpCode c OpTrue))
      | TNil \<Rightarrow> Some (Inr (emitOpCode c OpNil))
      | _ \<Rightarrow> Some (Inl Unreachable))"

text \<open>Calling a function value of the table: \<^verbatim>\<open>prefixRule(c, canAssign)\<close>.\<close>

definition callRule :: "'f Env \<Rightarrow> (Precedence \<Rightarrow> 'f Compiler \<Rightarrow> 'f Compiler Result) \<Rightarrow> ParseFn \<Rightarrow> bool \<Rightarrow> 'f Compiler \<Rightarrow> 'f Compiler Result" where
  "callRule E pp f canAssign c =
     (case f of
        UnaryFn \<Rightarrow> unary pp canAssign c
      | BinaryFn \<Rightarrow> binary E pp canAssign c
      | NumberFn \<Rightarrow> number E canAssign c
      | StringFn \<Rightarrow> string canAssign c
      | LiteralFn \<Rightarrow> literal canAssign c)"

text \<open>
  \<open>parsePrecedence\<close>, with its \<^verbatim>\<open>for\<close> loop as \<open>infixLoop\<close>.  Calling a \<^verbatim>\<open>nil\<close> infix rule
  panics.  The last step calls \<^verbatim>\<open>c.expression()\<close>, which is \<open>parsePrecedence\<close> at the level
  Assignment.
\<close>

fun parsePrecedence :: "'f Env \<Rightarrow> nat \<Rightarrow> Precedence \<Rightarrow> 'f Compiler \<Rightarrow> 'f Compiler Result"
  and infixLoop :: "'f Env \<Rightarrow> nat \<Rightarrow> Precedence \<Rightarrow> bool \<Rightarrow> 'f Compiler \<Rightarrow> 'f Compiler Result" where
  "parsePrecedence E 0 prec c = None"
| "parsePrecedence E (Suc n) prec c =
     (let c = advance c
      in case prefixRule (parseRules E (Type (previous (p c)))) of
           None \<Rightarrow> Some (Inr (error c ''Expect expression.''))
         | Some prefixFn \<Rightarrow>
             (let canAssign = prec < PrecedenceAssignment
              in andThen (callRule E (parsePrecedence E n) prefixFn canAssign c) (\<lambda>c.
                 andThen (infixLoop E n prec canAssign c) (\<lambda>c.
                   if canAssign then
                     (let (m, c) = match c TEqual
                      in if m then parsePrecedence E n PrecedenceAssignment
                                     (error c ''Invalid assignment target.'')
                         else Some (Inr c))
                   else Some (Inr c)))))"
| "infixLoop E 0 prec canAssign c = None"
| "infixLoop E (Suc n) prec canAssign c =
     (if prec < precedence (parseRules E (Type (current (p c)))) then
        (let c = advance c
         in case infixRule (parseRules E (Type (previous (p c)))) of
              None \<Rightarrow> Some (Inl NilFunction)
            | Some infixFn \<Rightarrow>
                andThen (callRule E (parsePrecedence E n) infixFn canAssign c)
                        (infixLoop E n prec canAssign))
      else Some (Inr c))"

definition expression :: "'f Env \<Rightarrow> nat \<Rightarrow> 'f Compiler \<Rightarrow> 'f Compiler Result" where
  "expression E n c = parsePrecedence E n PrecedenceAssignment c"

subsection \<open>Statements and the driver\<close>

definition returnStatement :: "'f Env \<Rightarrow> nat \<Rightarrow> 'f Compiler \<Rightarrow> 'f Compiler Result" where
  "returnStatement E n c =
     (let (m, c) = match c TNewline
      in if m then Some (Inr (emitReturn c))
         else (let needsNewline = \<not> check c TFn
               in andThen (expression E n c) (\<lambda>c.
                    let c = emitOpCode c OpReturn
                    in Some (Inr (if needsNewline then expectNewlineOrSemicolon c else c)))))"

definition expressionStatement :: "'f Env \<Rightarrow> nat \<Rightarrow> 'f Compiler \<Rightarrow> 'f Compiler Result" where
  "expressionStatement E n c =
     andThen (expression E n c) (\<lambda>c.
       let c = emitOpCode c OpPop
       in Some (Inr (expectNewlineOrSemicolon c)))"

definition statement :: "'f Env \<Rightarrow> nat \<Rightarrow> 'f Compiler \<Rightarrow> 'f Compiler Result" where
  "statement E n c =
     (let (m, c) = match c TReturn
      in if m then returnStatement E n c else expressionStatement E n c)"

definition declaration' :: "'f Env \<Rightarrow> nat \<Rightarrow> 'f Compiler \<Rightarrow> 'f Compiler Result" where
  "declaration' E n c = statement E n c"

text \<open>The loop \<^verbatim>\<open>for !c.match(parser.Eof) { c.declaration() }\<close>.\<close>

fun declarationLoop :: "'f Env \<Rightarrow> nat \<Rightarrow> 'f Compiler \<Rightarrow> 'f Compiler Result" where
  "declarationLoop E 0 c = None"
| "declarationLoop E (Suc n) c =
     (let (m, c) = match c TEof
      in if m then Some (Inr c)
         else andThen (declaration' E n c) (declarationLoop E n))"

text \<open>
  \<^verbatim>\<open>Compile\<close>.  Reading \<^verbatim>\<open>c.chunk.code[len(c.chunk.code)-1]\<close> of an empty code sequence
  panics.  The result is the returned pointer (\<open>None\<close> for \<^verbatim>\<open>nil\<close>) and the compiler as the
  call leaves it.
\<close>

definition Compile :: "'f Env \<Rightarrow> nat \<Rightarrow> 'f Compiler \<Rightarrow> ('f Chunk option \<times> 'f Compiler) Result" where
  "Compile E n c =
     andThen (declarationLoop E n (leadingLoop c)) (\<lambda>c.
       let cd = code (chunk c)
       in if cd = [] then Some (Inl IndexOutOfRange)
          else (let c = (if cd ! (length cd - 1) = uint8 OpPop
                         then c\<lparr>chunk := (chunk c)\<lparr>code := cd[length cd - 1 := uint8 OpReturn]\<rparr>\<rparr>
                         else c)
                in if hadError c then Some (Inr (None, c))
                   else Some (Inr (Some (chunk c), c))))"

subsection \<open>A parse-rule table\<close>

text \<open>
  Modelled from the spec: the table \<^verbatim>\<open>parseRules\<close> is not at hand.  Section 4.1 gives the
  prefix rules (number, string, the literal keywords, the unary operators \<^verbatim>\<open>!\<close> and \<^verbatim>\<open>-\<close>)
  and the binary operators; each binary operator stands at the level its kind names.  The
  theorems below hold for every table unless they name this one, which serves to run the
  compiler on examples.
\<close>

definition rule :: "ParseFn option \<Rightarrow> ParseFn option \<Rightarrow> Precedence \<Rightarrow> ParseRule" where
  "rule pre post prec = \<lparr>prefixRule = pre, infixRule = post, precedence = prec\<rparr>"

fun specRules :: "TokenType \<Rightarrow> ParseRule" where
  "specRules TNumber = rule (Some NumberFn) None PrecedenceNone"
| "specRules TString = rule (Some StringFn) None PrecedenceNone"
| "specRules TTrue = rule (Some LiteralFn) None PrecedenceNone"
| "specRules TFalse = rule (Some LiteralFn) None PrecedenceNone"
| "specRules TNil = rule (Some LiteralFn) None PrecedenceNone"
| "specRules TBang = rule (Some UnaryFn) None PrecedenceNone"
| "specRules TMinus = rule (Some UnaryFn) (Some BinaryFn) PrecedenceTerm"
| "specRules TPlus = rule None (Some BinaryFn) PrecedenceTerm"
| "specRules TStar = rule None (Some BinaryFn) PrecedenceFactor"
| "specRules TSlash = rule None (Some BinaryFn) PrecedenceFactor"
| "specRules TPercent = rule None (Some BinaryFn) PrecedenceFactor"
| "specRules TCaret = rule None (Some BinaryFn) PrecedenceExponent"
| "specRules TEqualEqual = rule None (Some BinaryFn) PrecedenceEquality"
| "specRules TBangEqual = rule None (Some BinaryFn) PrecedenceEquality"
| "specRules TLess = rule None (Some BinaryFn) PrecedenceComparison"
| "specRules TLessEqual = rule None (Some BinaryFn) PrecedenceComparison"
| "specRules TGreater = rule None (Some BinaryFn) PrecedenceComparison"
| "specRules TGreaterEqual = rule None (Some BinaryFn) PrecedenceComparison"
| "specRules _ = rule None None PrecedenceNone"

text \<open>
  A stand-in for \<^verbatim>\<open>strconv.ParseFloat\<close> on the lexemes of the examples: a string of decimal
  digits denotes its number, anything else is an error.
\<close>

fun digitsValue :: "string \<Rightarrow> nat \<Rightarrow> nat option" where
  "digitsValue [] acc = Some acc"
| "digitsValue (d # ds) acc =
     (if (48::nat) \<le> of_char d \<and> of_char d \<le> (57::nat)
      then digitsValue ds (10 * acc + (of_char d - 48))
      else None)"

definition digitsFloat :: "string \<Rightarrow> nat option" where
  "digitsFloat s = (if s = [] then None else digitsValue s 0)"

definition specEnv :: "nat Env" where
  "specEnv = \<lparr>parseRules = specRules, ParseFloat = digitsFloat\<rparr>"

definition tok :: "TokenType \<Rightarrow> string \<Rightarrow> Token" where
  "tok ty lx = \<lparr>Type = ty, Lexeme = lx, Line = 1\<rparr>"

text \<open>
  The token source before the first request, on the tokens \<open>ts\<close>: its current and previous
  token are \<open>t0\<close>.
\<close>

definition NewParser :: "Token \<Rightarrow> Token list \<Rightarrow> Parser" where
  "NewParser t0 ts = \<lparr>current = t0, previous = t0, upcoming = ts\<rparr>"



text \<open>A new compiler on the tokens \<open>ts\<close>, the token source starting at an end-of-input token.\<close>

definition fresh :: "Token list \<Rightarrow> nat Compiler" where
  "fresh ts = NewCompiler (NewParser eofToken ts)"

text \<open>\<open>returns r P\<close>: the call returned, without a panic and within the fuel, a value that satisfies \<open>P\<close>.\<close>

definition returns :: "'a Result \<Rightarrow> ('a \<Rightarrow> bool) \<Rightarrow> bool" where
  "returns r P = (case r of Some (Inr x) \<Rightarrow> P x | _ \<Rightarrow> False)"



section \<open>Properties\<close>

lemma returnsE:
  assumes "returns r P"
  obtains x where "r = Some (Inr x)" and "P x"
  using assms by (auto simp: returns_def split: option.splits sum.splits)


subsection \<open>What every parse step preserves\<close>

text \<open>
  A relation between the compiler before and after a step that is reflexive and transitive
  and that \<open>advance\<close>, \<open>errorAt\<close> and the emitters respect is respected by every method
  built from them.  The frame conditions below are instances.
\<close>

lemma andThen_Inr:
  "andThen r f = Some (Inr y) \<longleftrightarrow> (\<exists>x. r = Some (Inr x) \<and> f x = Some (Inr y))"
  by (auto simp: andThen_def split: option.splits sum.splits)

lemma unary_Inr:
  "unary pp ca c = Some (Inr c') \<Longrightarrow>
   \<exists>c1 opc. pp PrecedenceUnary c = Some (Inr c1) \<and> c' = emitOpCode c1 opc \<and> opc \<noteq> OpConstant"
  by (cases "Type (previous (p c))") (auto simp: unary_def andThen_Inr)

lemma binaryOpCode_not_Constant: "binaryOpCode t \<noteq> Some OpConstant"
  by (cases t) (simp_all add: binaryOpCode_def)

lemma binary_Inr:
  "binary E pp ca c = Some (Inr c') \<Longrightarrow>
   \<exists>c1. pp (precedence (parseRules E (Type (previous (p c)))) + 1) c = Some (Inr c1) \<and>
     (c' = c1 \<or> (\<exists>opc. c' = emitOpCode c1 opc \<and> opc \<noteq> OpConstant))"
  using binaryOpCode_not_Constant[of "Type (previous (p c))"]
  by (cases "binaryOpCode (Type (previous (p c)))") (auto simp: binary_def andThen_Inr Let_def)

lemma literal_Inr:
  "literal ca c = Some (Inr c') \<Longrightarrow> \<exists>opc. c' = emitOpCode c opc \<and> opc \<noteq> OpConstant"
  by (cases "Type (previous (p c))") (auto simp: literal_def)

lemma number_Inr:
  "number E ca c = Some (Inr c') \<Longrightarrow> \<exists>v. c' = emitConstant c v"
  by (auto simp: number_def split: option.splits)

lemma string_Inr:
  "string ca c = Some (Inr c') \<Longrightarrow> \<exists>v. c' = emitConstant c v"
  by (auto simp: string_def Let_def split: if_splits)

lemma callRule_preserves:
  fixes R :: "'f Compiler \<Rightarrow> 'f Compiler \<Rightarrow> bool"
  assumes R_refl: "\<And>c. R c c"
      and R_trans: "\<And>a b c. R a b \<Longrightarrow> R b c \<Longrightarrow> R a c"
      and emit: "\<And>c opc. opc \<noteq> OpConstant \<Longrightarrow> R c (emitOpCode c opc)"
      and emitc: "\<And>c v. R c (emitConstant c v)"
      and pp: "\<And>prec c c'. pp prec c = Some (Inr c') \<Longrightarrow> R c c'"
      and call: "callRule E pp f ca c = Some (Inr c')"
  shows "R c c'"
proof (cases f)
  case UnaryFn
  with call have "unary pp ca c = Some (Inr c')" by (simp add: callRule_def)
  from unary_Inr[OF this] show ?thesis
    using pp emit R_trans by blast
next
  case BinaryFn
  with call have "binary E pp ca c = Some (Inr c')" by (simp add: callRule_def)
  from binary_Inr[OF this] show ?thesis
    using pp emit R_trans by blast
next
  case NumberFn
  with call have "number E ca c = Some (Inr c')" by (simp add: callRule_def)
  from number_Inr[OF this] show ?thesis using emitc by blast
next
  case StringFn
  with call have "string ca c = Some (Inr c')" by (simp add: callRule_def)
  from string_Inr[OF this] show ?thesis using emitc by blast
next
  case LiteralFn
  with call have "literal ca c = Some (Inr c')" by (simp add: callRule_def)
  from literal_Inr[OF this] show ?thesis using emit by blast
qed

lemma parse_preserves_aux:
  fixes R :: "'f Compiler \<Rightarrow> 'f Compiler \<Rightarrow> bool"
  assumes R_refl: "\<And>c. R c c"
      and R_trans: "\<And>a b c. R a b \<Longrightarrow> R b c \<Longrightarrow> R a c"
      and adv: "\<And>c. R c (advance c)"
      and err: "\<And>c t m. R c (errorAt c t m)"
      and emit: "\<And>c opc. opc \<noteq> OpConstant \<Longrightarrow> R c (emitOpCode c opc)"
      and emitc: "\<And>c v. R c (emitConstant c v)"
  shows "(\<forall>prec c c'. parsePrecedence E n prec c = Some (Inr c') \<longrightarrow> R c c') \<and>
         (\<forall>prec ca c c'. infixLoop E n prec ca c = Some (Inr c') \<longrightarrow> R c c')"
proof (induction n)
  case 0
  show ?case by simp
next
  case (Suc n)
  then have ihp: "\<And>prec c c'. parsePrecedence E n prec c = Some (Inr c') \<Longrightarrow> R c c'"
    and ihl: "\<And>prec ca c c'. infixLoop E n prec ca c = Some (Inr c') \<Longrightarrow> R c c'"
    by blast+
  have cr: "R c c'" if "callRule E (parsePrecedence E n) f ca c = Some (Inr c')" for f ca c c'
    using callRule_preserves[where R = R and pp = "parsePrecedence E n" and E = E and f = f and ca = ca and c = c and c' = c']
          R_refl R_trans emit emitc ihp that by blast
  have P: "R c c'" if h: "parsePrecedence E (Suc n) prec c = Some (Inr c')" for prec c c'
  proof (cases "prefixRule (parseRules E (Type (previous (p (advance c)))))")
    case None
    with h have "c' = error (advance c) ''Expect expression.''"
      by (simp add: Let_def)
    then show ?thesis
      using R_trans[OF adv err] by (simp add: error_def)
  next
    case (Some f)
    with h obtain c1 c2 where
      c1: "callRule E (parsePrecedence E n) f (prec < PrecedenceAssignment) (advance c) = Some (Inr c1)"
      and c2: "infixLoop E n prec (prec < PrecedenceAssignment) c1 = Some (Inr c2)"
      and c3: "(if prec < PrecedenceAssignment then
                  (let (m, c) = match c2 TEqual
                   in if m then parsePrecedence E n PrecedenceAssignment (error c ''Invalid assignment target.'')
                      else Some (Inr c))
                else Some (Inr c2)) = Some (Inr c')"
      by (auto simp: Let_def andThen_Inr)
    have r1: "R c c1" using R_trans[OF adv cr[OF c1]] .
    have r2: "R c1 c2" using ihl[OF c2] .
    have r3: "R c2 c'"
    proof (cases "prec < PrecedenceAssignment \<and> check c2 TEqual")
      case True
      with c3 have "parsePrecedence E n PrecedenceAssignment (error (advance c2) ''Invalid assignment target.'') = Some (Inr c')"
        by (simp add: match_def)
      from ihp[OF this] show ?thesis
        using R_trans[OF R_trans[OF adv err]] by (simp add: error_def)
    next
      case False
      with c3 have "c' = c2" by (auto simp: match_def split: if_splits)
      then show ?thesis using R_refl by simp
    qed
    show ?thesis using R_trans[OF R_trans[OF r1 r2] r3] .
  qed
  have L: "R c c'" if h: "infixLoop E (Suc n) prec ca c = Some (Inr c')" for prec ca c c'
  proof (cases "prec < precedence (parseRules E (Type (current (p c))))")
    case True
    with h obtain f c1 where
      f: "infixRule (parseRules E (Type (previous (p (advance c))))) = Some f"
      and c1: "callRule E (parsePrecedence E n) f ca (advance c) = Some (Inr c1)"
      and c2: "infixLoop E n prec ca c1 = Some (Inr c')"
      by (auto simp: Let_def andThen_Inr split: option.splits)
    show ?thesis using R_trans[OF R_trans[OF adv cr[OF c1]] ihl[OF c2]] .
  next
    case False
    with h show ?thesis using R_refl by simp
  qed
  from P L show ?case by blast
qed

definition tokenStable :: "('f Compiler \<Rightarrow> 'f Compiler \<Rightarrow> bool) \<Rightarrow> bool" where
  "tokenStable R \<longleftrightarrow>
     (\<forall>c. R c c) \<and> (\<forall>a b c. R a b \<longrightarrow> R b c \<longrightarrow> R a c) \<and>
     (\<forall>c. R c (advance c)) \<and> (\<forall>c t m. R c (errorAt c t m))"

definition respected :: "('f Compiler \<Rightarrow> 'f Compiler \<Rightarrow> bool) \<Rightarrow> bool" where
  "respected R \<longleftrightarrow>
     tokenStable R \<and>
     (\<forall>c opc. opc \<noteq> OpConstant \<longrightarrow> R c (emitOpCode c opc)) \<and>
     (\<forall>c v. R c (emitConstant c v))"

lemma tokenStable_refl: "tokenStable R \<Longrightarrow> R c c"
  and tokenStable_trans: "tokenStable R \<Longrightarrow> R a b \<Longrightarrow> R b c \<Longrightarrow> R a c"
  and tokenStable_advance: "tokenStable R \<Longrightarrow> R c (advance c)"
  and tokenStable_errorAt: "tokenStable R \<Longrightarrow> R c (errorAt c t m)"
  unfolding tokenStable_def by blast+

lemma respected_tokenStable: "respected R \<Longrightarrow> tokenStable R"
  by (simp add: respected_def)

lemma respected_refl: "respected R \<Longrightarrow> R c c"
  and respected_trans: "respected R \<Longrightarrow> R a b \<Longrightarrow> R b c \<Longrightarrow> R a c"
  and respected_advance: "respected R \<Longrightarrow> R c (advance c)"
  and respected_errorAt: "respected R \<Longrightarrow> R c (errorAt c t m)"
  and respected_emitOpCode: "respected R \<Longrightarrow> opc \<noteq> OpConstant \<Longrightarrow> R c (emitOpCode c opc)"
  and respected_emitConstant: "respected R \<Longrightarrow> R c (emitConstant c v)"
  unfolding respected_def tokenStable_def by blast+

lemma respected_parsePrecedence:
  assumes "respected R" and "parsePrecedence E n prec c = Some (Inr c')"
  shows "R c c'"
  using parse_preserves_aux[where R = R and E = E and n = n] assms
  unfolding respected_def tokenStable_def by blast

lemma respected_infixLoop:
  assumes "respected R" and "infixLoop E n prec ca c = Some (Inr c')"
  shows "R c c'"
  using parse_preserves_aux[where R = R and E = E and n = n] assms
  unfolding respected_def tokenStable_def by blast

lemma tokenStable_match:
  assumes "tokenStable R" shows "R c (snd (match c t))"
  using tokenStable_refl[OF assms] tokenStable_advance[OF assms] by (simp add: match_def)

lemma tokenStable_consume:
  assumes "tokenStable R" shows "R c (consume c t m)"
  using tokenStable_errorAt[OF assms] tokenStable_advance[OF assms]
  by (simp add: consume_def errorAtCurrent_def)

lemma expectNewlineOrSemicolon_cases:
  "expectNewlineOrSemicolon c = c \<or> expectNewlineOrSemicolon c = advance c \<or>
   expectNewlineOrSemicolon c = consume c TNewline ''Expect newline or ';'.''"
  by (simp add: expectNewlineOrSemicolon_def match_def)

lemma tokenStable_expectNewlineOrSemicolon:
  assumes "tokenStable R" shows "R c (expectNewlineOrSemicolon c)"
  using expectNewlineOrSemicolon_cases[of c]
    tokenStable_refl[OF assms] tokenStable_advance[OF assms] tokenStable_consume[OF assms]
  by metis

lemma tokenStable_leadingLoop:
  assumes R: "tokenStable R"
  shows "R c (leadingLoop c)"
proof (induction c rule: leadingLoop.induct)
  case (1 c)
  show ?case
  proof (cases "check (advance c) TNewline")
    case True
    then have "leadingLoop c = leadingLoop (advance c)"
      by (subst leadingLoop.simps) (simp add: Let_def)
    with 1[OF refl] True show ?thesis
      using tokenStable_advance[OF R] tokenStable_trans[OF R] by force
  next
    case False
    then have "leadingLoop c = advance c"
      by (subst leadingLoop.simps) (simp add: Let_def)
    then show ?thesis using tokenStable_advance[OF R] by simp
  qed
qed

lemma respected_expectNewlineOrSemicolon:
  "respected R \<Longrightarrow> R c (expectNewlineOrSemicolon c)"
  by (simp add: respected_tokenStable tokenStable_expectNewlineOrSemicolon)

lemma respected_expression:
  assumes "respected R" and "expression E n c = Some (Inr c')"
  shows "R c c'"
  using assms respected_parsePrecedence unfolding expression_def by blast

lemma respected_expressionStatement:
  assumes R: "respected R" and h: "expressionStatement E n c = Some (Inr c')"
  shows "R c c'"
proof -
  from h obtain c1 where c1: "expression E n c = Some (Inr c1)"
    and c': "c' = expectNewlineOrSemicolon (emitOpCode c1 OpPop)"
    by (auto simp: expressionStatement_def andThen_Inr Let_def)
  have "R c1 (emitOpCode c1 OpPop)" using respected_emitOpCode[OF R] by simp
  then show ?thesis
    unfolding c'
    using respected_expression[OF R c1] respected_expectNewlineOrSemicolon[OF R]
          respected_trans[OF R] by blast
qed

lemma respected_returnStatement:
  assumes R: "respected R" and h: "returnStatement E n c = Some (Inr c')"
  shows "R c c'"
proof (cases "check c TNewline")
  case True
  with h have c': "c' = emitReturn (advance c)"
    by (simp add: returnStatement_def match_def)
  have "R (advance c) (emitOpCode (advance c) OpNil)"
    "R (emitOpCode (advance c) OpNil) (emitOpCode (emitOpCode (advance c) OpNil) OpReturn)"
    using respected_emitOpCode[OF R] by simp_all
  then show ?thesis
    unfolding c' emitReturn_def
    using respected_advance[OF R] respected_trans[OF R] by blast
next
  case False
  with h obtain c1 where c1: "expression E n c = Some (Inr c1)"
    and c': "c' = emitOpCode c1 OpReturn \<or> c' = expectNewlineOrSemicolon (emitOpCode c1 OpReturn)"
    by (auto simp: returnStatement_def match_def andThen_Inr Let_def split: if_splits)
  have "R c1 (emitOpCode c1 OpReturn)" using respected_emitOpCode[OF R] by simp
  then show ?thesis
    using c' respected_expression[OF R c1] respected_expectNewlineOrSemicolon[OF R]
          respected_trans[OF R] by blast
qed

lemma respected_statement:
  assumes R: "respected R" and h: "statement E n c = Some (Inr c')"
  shows "R c c'"
proof (cases "check c TReturn")
  case True
  with h have "returnStatement E n (advance c) = Some (Inr c')"
    by (simp add: statement_def match_def)
  from respected_returnStatement[OF R this] show ?thesis
    using respected_advance[OF R] respected_trans[OF R] by blast
next
  case False
  with h have "expressionStatement E n c = Some (Inr c')"
    by (simp add: statement_def match_def)
  from respected_expressionStatement[OF R this] show ?thesis .
qed

lemma respected_declarationLoop:
  assumes R: "respected R"
  shows "declarationLoop E n c = Some (Inr c') \<Longrightarrow> R c c'"
proof (induction n arbitrary: c)
  case 0
  then show ?case by simp
next
  case (Suc n)
  show ?case
  proof (cases "check c TEof")
    case True
    with Suc.prems have "c' = advance c" by (simp add: match_def)
    then show ?thesis using respected_advance[OF R] by simp
  next
    case False
    with Suc.prems obtain c1 where c1: "statement E n c = Some (Inr c1)"
      and c2: "declarationLoop E n c1 = Some (Inr c')"
      by (auto simp: match_def declaration'_def andThen_Inr)
    from respected_statement[OF R c1] Suc.IH[OF c2] show ?thesis
      using respected_trans[OF R] by blast
  qed
qed

subsection \<open>Diagnostics: at most one is recorded\<close>

definition errStep :: "'f Compiler \<Rightarrow> 'f Compiler \<Rightarrow> bool" where
  "errStep c c' \<longleftrightarrow>
     (panicMode c' = panicMode c \<and> hadError c' = hadError c \<and> stderr c' = stderr c) \<or>
     (\<not> panicMode c \<and> panicMode c' \<and> hadError c' \<and>
      stderr c' \<noteq> [] \<and> butlast (stderr c') = stderr c)"

lemma errStep_refl: "errStep c c"
  by (simp add: errStep_def)

lemma errStep_trans: "errStep a b \<Longrightarrow> errStep b c \<Longrightarrow> errStep a c"
  unfolding errStep_def by metis

lemma errStep_errorAt: "errStep c (errorAt c t m)"
  by (simp add: errStep_def errorAt_def)

lemma errStep_same:
  "panicMode c' = panicMode c \<Longrightarrow> hadError c' = hadError c \<Longrightarrow> stderr c' = stderr c \<Longrightarrow> errStep c c'"
  by (simp add: errStep_def)

lemma errStep_advanceLoop: "errStep c (advanceLoop c)"
proof (induction "upcoming (p c)" arbitrary: c)
  case Nil
  then show ?case by (simp add: advanceLoop_nil errStep_def)
next
  case (Cons t ts)
  let ?c1 = "c\<lparr>p := (p c)\<lparr>upcoming := ts, current := t\<rparr>\<rparr>"
  show ?case
  proof (cases "Type t = TError")
    case True
    have "ts = upcoming (p (errorAt ?c1 t (Lexeme t)))" by simp
    from Cons(1)[OF this] have "errStep (errorAt ?c1 t (Lexeme t)) (advanceLoop c)"
      using True Cons(2)[symmetric] by (simp add: advanceLoop_cons)
    moreover have "errStep c ?c1" by (simp add: errStep_def)
    ultimately show ?thesis using errStep_errorAt errStep_trans by blast
  next
    case False
    then show ?thesis using Cons(2)[symmetric] by (simp add: advanceLoop_cons errStep_def)
  qed
qed

lemma errStep_advance: "errStep c (advance c)"
proof -
  let ?c1 = "c\<lparr>p := SetPrevious (p c) (current (p c))\<rparr>"
  have "errStep c ?c1" by (simp add: errStep_def)
  moreover have "errStep ?c1 (advanceLoop ?c1)" by (rule errStep_advanceLoop)
  moreover have "errStep (advanceLoop ?c1) (skipNewlines (advanceLoop ?c1))"
    using skipNewlines_props by (intro errStep_same) blast+
  ultimately show ?thesis
    unfolding advance_def Let_def using errStep_trans by blast
qed

lemma errStep_emitOpCode: "errStep c (emitOpCode c opc)"
  by (rule errStep_same) (simp_all add: emitOpCode_def)

lemma errStep_emitConstant: "errStep c (emitConstant c v)"
  by (rule errStep_same)
     (simp_all add: emitConstant_def emitOpCode_def emitShort_def Let_def split: prod.splits)

lemma respected_errStep: "respected errStep"
  unfolding respected_def tokenStable_def
  using errStep_refl errStep_trans errStep_advance errStep_errorAt
        errStep_emitOpCode errStep_emitConstant
  by blast

subsection \<open>The emitted code is a sequence of instructions\<close>

datatype Instr = IConstant "16 word" | IOp OpCode

fun encode :: "Instr \<Rightarrow> 8 word list" where
  "encode (IConstant k) = [uint8 OpConstant, ucast (and (drop_bit 8 k) 0xff), ucast (and k 0xff)]"
| "encode (IOp opc) = [uint8 opc]"

definition encodes :: "Instr list \<Rightarrow> 8 word list" where
  "encodes is = concat (map encode is)"

definition codeStep :: "'f Compiler \<Rightarrow> 'f Compiler \<Rightarrow> bool" where
  "codeStep c c' \<longleftrightarrow>
     (\<exists>is. IOp OpConstant \<notin> set is \<and> code (chunk c') = code (chunk c) @ encodes is) \<and>
     (\<exists>vs. constants (chunk c') = constants (chunk c) @ vs)"

lemma encodes_append [simp]: "encodes (xs @ ys) = encodes xs @ encodes ys"
  by (simp add: encodes_def)

lemma encodes_Nil [simp]: "encodes [] = []"
  by (simp add: encodes_def)

lemma codeStep_refl: "codeStep c c"
  unfolding codeStep_def by (auto intro: exI[of _ "[]"])

lemma codeStep_trans:
  assumes "codeStep a b" "codeStep b c" shows "codeStep a c"
proof -
  from assms obtain is1 is2 vs1 vs2 where
    h: "IOp OpConstant \<notin> set is1" "code (chunk b) = code (chunk a) @ encodes is1"
       "IOp OpConstant \<notin> set is2" "code (chunk c) = code (chunk b) @ encodes is2"
       "constants (chunk b) = constants (chunk a) @ vs1"
       "constants (chunk c) = constants (chunk b) @ vs2"
    unfolding codeStep_def by blast
  then have "IOp OpConstant \<notin> set (is1 @ is2)" "code (chunk c) = code (chunk a) @ encodes (is1 @ is2)"
    "constants (chunk c) = constants (chunk a) @ (vs1 @ vs2)"
    by simp_all
  then show ?thesis unfolding codeStep_def by blast
qed

lemma codeStep_same: "chunk c' = chunk c \<Longrightarrow> codeStep c c'"
  unfolding codeStep_def by (auto intro: exI[of _ "[]"])

lemma codeStep_emitOpCode: "opc \<noteq> OpConstant \<Longrightarrow> codeStep c (emitOpCode c opc)"
  unfolding codeStep_def
  by (auto simp: emitOpCode_def pushCode_def encodes_def intro!: exI[of _ "[IOp opc]"])

lemma codeStep_emitConstant: "codeStep c (emitConstant c v)"
  unfolding codeStep_def
  by (auto simp: emitConstant_def emitOpCode_def emitShort_def pushCode_def pushConstant_def
                 encodes_def Let_def
           intro!: exI[of _ "[IConstant (word_of_nat (length (constants (chunk c))))]"])

lemma respected_codeStep: "respected codeStep"
  unfolding respected_def tokenStable_def
  using codeStep_refl codeStep_trans codeStep_emitOpCode codeStep_emitConstant
        codeStep_same[OF conjunct1[OF advance_props]] codeStep_same[OF errorAt_chunk]
  by blast

subsection \<open>The driver\<close>

lemma list_update_last: "xs \<noteq> [] \<Longrightarrow> xs[length xs - Suc 0 := x] = butlast xs @ [x]"
  by (induction xs rule: rev_induct) auto

lemma Compile_Inr:
  assumes "Compile E n c = Some (Inr (r, c'))"
  shows "\<exists>c1. declarationLoop E n (leadingLoop c) = Some (Inr c1) \<and>
           code (chunk c1) \<noteq> [] \<and>
           c' = (if last (code (chunk c1)) = uint8 OpPop
                 then c1\<lparr>chunk := (chunk c1)\<lparr>code := butlast (code (chunk c1)) @ [uint8 OpReturn]\<rparr>\<rparr>
                 else c1) \<and>
           r = (if hadError c1 then None else Some (chunk c'))"
proof -
  from assms obtain c1 where
    c1: "declarationLoop E n (leadingLoop c) = Some (Inr c1)"
    and rest: "(let cd = code (chunk c1)
       in if cd = [] then Some (Inl IndexOutOfRange)
          else (let c = (if cd ! (length cd - 1) = uint8 OpPop
                         then c1\<lparr>chunk := (chunk c1)\<lparr>code := cd[length cd - 1 := uint8 OpReturn]\<rparr>\<rparr>
                         else c1)
                in if hadError c then Some (Inr (None, c))
                   else Some (Inr (Some (chunk c), c)))) = Some (Inr (r, c'))"
    unfolding Compile_def andThen_Inr by blast
  from rest have ne: "code (chunk c1) \<noteq> []"
    by (auto simp: Let_def split: if_splits)
  then have l: "code (chunk c1) ! (length (code (chunk c1)) - Suc 0) = last (code (chunk c1))"
    by (simp add: last_conv_nth)
  from rest ne show ?thesis
    unfolding c1 by (auto simp: Let_def l list_update_last split: if_splits)
qed

lemma Compile_errStep:
  assumes "Compile E n c = Some (Inr (r, c'))"
  shows "errStep c c'"
proof -
  from Compile_Inr[OF assms] obtain c1 where
    c1: "declarationLoop E n (leadingLoop c) = Some (Inr c1)"
    and c': "c' = c1 \<or> (\<exists>ch. c' = c1\<lparr>chunk := ch\<rparr>)"
    by metis
  have "errStep c (leadingLoop c)"
    by (rule tokenStable_leadingLoop[OF respected_tokenStable[OF respected_errStep]])
  moreover have "errStep (leadingLoop c) c1"
    by (rule respected_declarationLoop[OF respected_errStep c1])
  moreover have "errStep c1 c'" using c' by (auto simp: errStep_def)
  ultimately show ?thesis using errStep_trans by blast
qed

lemma leadingLoop_props:
  "current (p (leadingLoop c)) \<in> insert eofToken (set (upcoming (p c))) \<and>
   chunk (leadingLoop c) = chunk c \<and>
   \<not> check (leadingLoop c) TNewline"
proof (induction c rule: leadingLoop.induct)
  case (1 c)
  note a = advance_props[of c]
  show ?case
  proof (cases "check (advance c) TNewline")
    case True
    then have eq: "leadingLoop c = leadingLoop (advance c)"
      by (subst leadingLoop.simps) (simp add: Let_def)
    from 1[OF refl] True a show ?thesis unfolding eq by auto
  next
    case False
    then have "leadingLoop c = advance c"
      by (subst leadingLoop.simps) (simp add: Let_def)
    with False a show ?thesis by simp
  qed
qed

subsection \<open>Every statement ends in a \<open>Pop\<close> or a \<open>Return\<close>\<close>

text \<open>
  \<open>statementCode c c'\<close>: from \<open>c\<close> to \<open>c'\<close> the code grew by whole instructions, the last
  of them a \<open>Pop\<close> or a \<open>Return\<close>.
\<close>

definition statementCode :: "'f Compiler \<Rightarrow> 'f Compiler \<Rightarrow> bool" where
  "statementCode c c' \<longleftrightarrow>
     (\<exists>is opc. IOp OpConstant \<notin> set is \<and> (opc = OpPop \<or> opc = OpReturn) \<and>
        code (chunk c') = code (chunk c) @ encodes (is @ [IOp opc]))"

lemma statementCode_after_codeStep:
  assumes "codeStep a b" "statementCode b c" shows "statementCode a c"
proof -
  from assms obtain is1 is2 opc where
    "IOp OpConstant \<notin> set is1" "code (chunk b) = code (chunk a) @ encodes is1"
    "IOp OpConstant \<notin> set is2" "opc = OpPop \<or> opc = OpReturn"
    "code (chunk c) = code (chunk b) @ encodes (is2 @ [IOp opc])"
    unfolding codeStep_def statementCode_def by blast
  then have "IOp OpConstant \<notin> set (is1 @ is2)" "opc = OpPop \<or> opc = OpReturn"
    "code (chunk c) = code (chunk a) @ encodes ((is1 @ is2) @ [IOp opc])"
    by simp_all
  then show ?thesis unfolding statementCode_def by blast
qed

lemma statementCode_codeStep:
  assumes "statementCode a b"
  shows "\<exists>is. IOp OpConstant \<notin> set is \<and> code (chunk b) = code (chunk a) @ encodes is"
proof -
  from assms obtain is1 opc where
    h: "IOp OpConstant \<notin> set is1" "opc = OpPop \<or> opc = OpReturn"
       "code (chunk b) = code (chunk a) @ encodes (is1 @ [IOp opc])"
    unfolding statementCode_def by blast
  then have "IOp OpConstant \<notin> set (is1 @ [IOp opc])" by auto
  with h(3) show ?thesis by blast
qed

lemma statementCode_trans:
  assumes "statementCode a b" "statementCode b c" shows "statementCode a c"
proof -
  from statementCode_codeStep[OF assms(1)] obtain is1 where
    "IOp OpConstant \<notin> set is1" "code (chunk b) = code (chunk a) @ encodes is1"
    by blast
  moreover from assms(2) obtain is2 opc where
    "IOp OpConstant \<notin> set is2" "opc = OpPop \<or> opc = OpReturn"
    "code (chunk c) = code (chunk b) @ encodes (is2 @ [IOp opc])"
    unfolding statementCode_def by blast
  ultimately have "IOp OpConstant \<notin> set (is1 @ is2)" "opc = OpPop \<or> opc = OpReturn"
    "code (chunk c) = code (chunk a) @ encodes ((is1 @ is2) @ [IOp opc])"
    by simp_all
  then show ?thesis unfolding statementCode_def by blast
qed

lemma statementCode_same: "statementCode a b \<Longrightarrow> chunk c = chunk b \<Longrightarrow> statementCode a c"
  by (simp add: statementCode_def)

lemma statementCode_emit:
  assumes "codeStep a b" "opc = OpPop \<or> opc = OpReturn"
  shows "statementCode a (emitOpCode b opc)"
proof -
  from assms(1) obtain is1 where
    "IOp OpConstant \<notin> set is1" "code (chunk b) = code (chunk a) @ encodes is1"
    unfolding codeStep_def by blast
  then have "IOp OpConstant \<notin> set is1"
    "code (chunk (emitOpCode b opc)) = code (chunk a) @ encodes (is1 @ [IOp opc])"
    by (simp_all add: emitOpCode_def pushCode_def encodes_def)
  with assms(2) show ?thesis unfolding statementCode_def by blast
qed

lemma tokenStable_chunk: "tokenStable (\<lambda>c c'. chunk c' = chunk c)"
  unfolding tokenStable_def using advance_props by auto

lemma expectNewlineOrSemicolon_chunk [simp]: "chunk (expectNewlineOrSemicolon c) = chunk c"
  by (rule tokenStable_expectNewlineOrSemicolon[OF tokenStable_chunk])

lemma expressionStatement_code:
  assumes "expressionStatement E n c = Some (Inr c')"
  shows "statementCode c c'"
proof -
  from assms obtain c1 where c1: "expression E n c = Some (Inr c1)"
    and c': "c' = expectNewlineOrSemicolon (emitOpCode c1 OpPop)"
    by (auto simp: expressionStatement_def andThen_Inr Let_def)
  from respected_expression[OF respected_codeStep c1]
  have "statementCode c (emitOpCode c1 OpPop)" by (rule statementCode_emit) simp
  then show ?thesis unfolding c' by (rule statementCode_same) simp
qed

lemma returnStatement_code:
  assumes "returnStatement E n c = Some (Inr c')"
  shows "statementCode c c'"
proof (cases "check c TNewline")
  case True
  with assms have c': "c' = emitOpCode (emitOpCode (advance c) OpNil) OpReturn"
    by (simp add: returnStatement_def match_def emitReturn_def)
  have "codeStep c (advance c)" by (rule respected_advance[OF respected_codeStep])
  moreover have "codeStep (advance c) (emitOpCode (advance c) OpNil)"
    by (rule codeStep_emitOpCode) simp
  ultimately have "codeStep c (emitOpCode (advance c) OpNil)" by (rule codeStep_trans)
  then show ?thesis unfolding c' by (rule statementCode_emit) simp
next
  case False
  with assms obtain c1 where c1: "expression E n c = Some (Inr c1)"
    and c': "c' = emitOpCode c1 OpReturn \<or> c' = expectNewlineOrSemicolon (emitOpCode c1 OpReturn)"
    by (auto simp: returnStatement_def match_def andThen_Inr Let_def split: if_splits)
  from respected_expression[OF respected_codeStep c1]
  have s: "statementCode c (emitOpCode c1 OpReturn)" by (rule statementCode_emit) simp
  from c' show ?thesis
  proof
    assume "c' = emitOpCode c1 OpReturn" with s show ?thesis by simp
  next
    assume "c' = expectNewlineOrSemicolon (emitOpCode c1 OpReturn)"
    with s show ?thesis by (simp add: statementCode_same)
  qed
qed

lemma statement_code:
  assumes "statement E n c = Some (Inr c')"
  shows "statementCode c c'"
proof (cases "check c TReturn")
  case True
  with assms have "returnStatement E n (advance c) = Some (Inr c')"
    by (simp add: statement_def match_def)
  from returnStatement_code[OF this] show ?thesis
    using advance_props[of c] by (simp add: statementCode_def)
next
  case False
  with assms have "expressionStatement E n c = Some (Inr c')"
    by (simp add: statement_def match_def)
  then show ?thesis by (rule expressionStatement_code)
qed

lemma declarationLoop_code:
  "declarationLoop E n c = Some (Inr c') \<Longrightarrow> chunk c' = chunk c \<or> statementCode c c'"
proof (induction n arbitrary: c)
  case 0
  then show ?case by simp
next
  case (Suc n)
  show ?case
  proof (cases "check c TEof")
    case True
    with Suc.prems have "c' = advance c" by (simp add: match_def)
    then show ?thesis using advance_props[of c] by simp
  next
    case False
    with Suc.prems obtain c1 where c1: "statement E n c = Some (Inr c1)"
      and c2: "declarationLoop E n c1 = Some (Inr c')"
      by (auto simp: match_def declaration'_def andThen_Inr)
    from Suc.IH[OF c2] statement_code[OF c1] show ?thesis
      using statementCode_trans statementCode_same by blast
  qed
qed

lemma last_encodes: "last (encodes (is @ [IOp opc])) = uint8 opc"
  by (simp add: encodes_def)

lemma butlast_encodes: "butlast (encodes (is @ [IOp opc])) = encodes is"
  by (simp add: encodes_def)

lemma uint8_inj: "uint8 a = uint8 b \<longleftrightarrow> a = b"
  by (cases a; cases b) simp_all

subsection \<open>The shape of \<open>parsePrecedence\<close>\<close>

text \<open>
  The loop of \<open>parsePrecedence\<close> ends when the level of the current token no longer exceeds
  the minimum level.  The two unfoldings state the method in terms of the token that is
  current when it is called.
\<close>

lemma infixLoop_exit:
  "infixLoop E n prec ca c = Some (Inr c') \<Longrightarrow>
   precedence (parseRules E (Type (current (p c')))) \<le> prec"
proof (induction n arbitrary: c)
  case 0
  then show ?case by simp
next
  case (Suc n)
  show ?case
  proof (cases "prec < precedence (parseRules E (Type (current (p c))))")
    case True
    with Suc.prems obtain c1 where "infixLoop E n prec ca c1 = Some (Inr c')"
      by (auto simp: Let_def andThen_Inr split: option.splits)
    then show ?thesis by (rule Suc.IH)
  next
    case False
    with Suc.prems show ?thesis by simp
  qed
qed

lemma advance_previous [simp]: "previous (p (advance c)) = current (p c)"
  using advance_props by blast

lemma advance_chunk [simp]: "chunk (advance c) = chunk c"
  using advance_props by blast

lemma parsePrecedence_unfold:
  "parsePrecedence E (Suc n) prec c =
     (case prefixRule (parseRules E (Type (current (p c)))) of
        None \<Rightarrow> Some (Inr (errorAt (advance c) (current (p c)) ''Expect expression.''))
      | Some f \<Rightarrow>
          andThen (callRule E (parsePrecedence E n) f (prec < PrecedenceAssignment) (advance c)) (\<lambda>c1.
          andThen (infixLoop E n prec (prec < PrecedenceAssignment) c1) (\<lambda>c2.
            if prec < PrecedenceAssignment \<and> check c2 TEqual
            then expression E n (errorAt (advance c2) (current (p c2)) ''Invalid assignment target.'')
            else Some (Inr c2))))"
  by (auto simp: Let_def error_def match_def expression_def split: option.splits
           intro!: arg_cong2[where f = andThen] ext)

lemma infixLoop_unfold:
  "infixLoop E (Suc n) prec ca c =
     (if prec < precedence (parseRules E (Type (current (p c))))
      then (case infixRule (parseRules E (Type (current (p c)))) of
              None \<Rightarrow> Some (Inl NilFunction)
            | Some g \<Rightarrow> andThen (callRule E (parsePrecedence E n) g ca (advance c))
                                (infixLoop E n prec ca))
      else Some (Inr c))"
  by (simp add: Let_def)

lemma parsePrecedence_exit:
  assumes "parsePrecedence E n prec c = Some (Inr c')"
    and "prefixRule (parseRules E (Type (current (p c)))) \<noteq> None"
    and "PrecedenceAssignment \<le> prec"
  shows "precedence (parseRules E (Type (current (p c')))) \<le> prec"
proof (cases n)
  case 0
  with assms(1) show ?thesis by simp
next
  case (Suc m)
  from assms(2) obtain f where f: "prefixRule (parseRules E (Type (current (p c)))) = Some f"
    by auto
  from assms(3) have na: "\<not> prec < PrecedenceAssignment" by simp
  from assms(1) obtain c1 where "infixLoop E m prec False c1 = Some (Inr c')"
    unfolding Suc parsePrecedence_unfold f using na
    by (auto simp: andThen_Inr)
  then show ?thesis by (rule infixLoop_exit)
qed

lemma left_assoc_spec:
  assumes "binaryOpCode T = Some opc"
  shows "returns (expression specEnv 9
            (leadingLoop (fresh [tok TNumber ''1'', tok T lx, tok TNumber ''2'', tok T lx, tok TNumber ''3''])))
          (\<lambda>c'. code (chunk c') = encodes [IConstant 0, IConstant 1, IOp opc, IConstant 2, IOp opc] \<and>
                 constants (chunk c') = [Number 1, Number 2, Number 3] \<and> stderr c' = [])"
  using assms by (cases T; clarsimp simp: binaryOpCode_def; code_simp)

lemma panicMode_errorAt [simp]: "panicMode (errorAt c t m)"
  by (simp add: errorAt_def)

subsection \<open>More fuel never changes a result\<close>

text \<open>
  A call that returns or panics within the fuel \<open>n\<close> does the same on any larger fuel: the
  fuel bounds the depth of the recursion and is no part of what is computed.
\<close>

lemma andThen_mono:
  assumes "andThen r f = Some x"
    and "\<And>z. r = Some z \<Longrightarrow> r' = Some z"
    and "\<And>y z. f y = Some z \<Longrightarrow> g y = Some z"
  shows "andThen r' g = Some x"
proof (cases r)
  case None
  with assms(1) show ?thesis by (simp add: andThen_def)
next
  case (Some z)
  from assms(2)[OF Some] have r': "r' = Some z" .
  show ?thesis
  proof (cases z)
    case (Inl e)
    with assms(1) Some r' show ?thesis by (simp add: andThen_def)
  next
    case (Inr y)
    with assms(1) Some have "f y = Some x" by (simp add: andThen_def)
    from assms(3)[OF this] Inr r' show ?thesis by (simp add: andThen_def)
  qed
qed

lemma callRule_mono:
  assumes pp: "\<And>prec c r. pp prec c = Some r \<Longrightarrow> pp' prec c = Some r"
    and call: "callRule E pp f ca c = Some r"
  shows "callRule E pp' f ca c = Some r"
proof (cases f)
  case UnaryFn
  with call have "unary pp ca c = Some r" by (simp add: callRule_def)
  then have "unary pp' ca c = Some r"
    unfolding unary_def Let_def by (rule andThen_mono) (erule pp, assumption)
  with UnaryFn show ?thesis by (simp add: callRule_def)
next
  case BinaryFn
  with call have "binary E pp ca c = Some r" by (simp add: callRule_def)
  then have "binary E pp' ca c = Some r"
    unfolding binary_def Let_def by (rule andThen_mono) (erule pp, assumption)
  with BinaryFn show ?thesis by (simp add: callRule_def)
next
  case NumberFn
  with call show ?thesis by (simp add: callRule_def)
next
  case StringFn
  with call show ?thesis by (simp add: callRule_def)
next
  case LiteralFn
  with call show ?thesis by (simp add: callRule_def)
qed


lemma parse_fuel_Suc:
  "(\<forall>prec c r. parsePrecedence E n prec c = Some r \<longrightarrow> parsePrecedence E (Suc n) prec c = Some r) \<and>
   (\<forall>prec ca c r. infixLoop E n prec ca c = Some r \<longrightarrow> infixLoop E (Suc n) prec ca c = Some r)"
proof (induction n)
  case 0
  show ?case by simp
next
  case (Suc n)
  then have ihp: "\<And>prec c r. parsePrecedence E n prec c = Some r \<Longrightarrow> parsePrecedence E (Suc n) prec c = Some r"
    and ihl: "\<And>prec ca c r. infixLoop E n prec ca c = Some r \<Longrightarrow> infixLoop E (Suc n) prec ca c = Some r"
    by blast+
  have cr: "callRule E (parsePrecedence E (Suc n)) f ca c = Some r"
    if "callRule E (parsePrecedence E n) f ca c = Some r" for f ca c r
    using callRule_mono[where pp = "parsePrecedence E n" and pp' = "parsePrecedence E (Suc n)", OF ihp that] .
  have P: "parsePrecedence E (Suc (Suc n)) prec c = Some r"
    if h: "parsePrecedence E (Suc n) prec c = Some r" for prec c r
  proof (cases "prefixRule (parseRules E (Type (current (p c))))")
    case None
    with h show ?thesis
      by (simp only: parsePrecedence_unfold option.case)
  next
    case (Some f)
    from h have h': "andThen (callRule E (parsePrecedence E n) f (prec < PrecedenceAssignment) (advance c)) (\<lambda>c1.
          andThen (infixLoop E n prec (prec < PrecedenceAssignment) c1) (\<lambda>c2.
            if prec < PrecedenceAssignment \<and> check c2 TEqual
            then expression E n (errorAt (advance c2) (current (p c2)) ''Invalid assignment target.'')
            else Some (Inr c2))) = Some r"
      by (simp only: parsePrecedence_unfold Some option.case)
    have "andThen (callRule E (parsePrecedence E (Suc n)) f (prec < PrecedenceAssignment) (advance c)) (\<lambda>c1.
          andThen (infixLoop E (Suc n) prec (prec < PrecedenceAssignment) c1) (\<lambda>c2.
            if prec < PrecedenceAssignment \<and> check c2 TEqual
            then expression E (Suc n) (errorAt (advance c2) (current (p c2)) ''Invalid assignment target.'')
            else Some (Inr c2))) = Some r"
    proof (rule andThen_mono[OF h'])
      fix z assume "callRule E (parsePrecedence E n) f (prec < PrecedenceAssignment) (advance c) = Some z"
      then show "callRule E (parsePrecedence E (Suc n)) f (prec < PrecedenceAssignment) (advance c) = Some z"
        by (rule cr)
    next
      fix y z
      assume a: "andThen (infixLoop E n prec (prec < PrecedenceAssignment) y) (\<lambda>c2.
            if prec < PrecedenceAssignment \<and> check c2 TEqual
            then expression E n (errorAt (advance c2) (current (p c2)) ''Invalid assignment target.'')
            else Some (Inr c2)) = Some z"
      show "andThen (infixLoop E (Suc n) prec (prec < PrecedenceAssignment) y) (\<lambda>c2.
            if prec < PrecedenceAssignment \<and> check c2 TEqual
            then expression E (Suc n) (errorAt (advance c2) (current (p c2)) ''Invalid assignment target.'')
            else Some (Inr c2)) = Some z"
      proof (rule andThen_mono[OF a])
        fix w assume "infixLoop E n prec (prec < PrecedenceAssignment) y = Some w"
        then show "infixLoop E (Suc n) prec (prec < PrecedenceAssignment) y = Some w" by (rule ihl)
      next
        fix c2 w
        assume "(if prec < PrecedenceAssignment \<and> check c2 TEqual
            then expression E n (errorAt (advance c2) (current (p c2)) ''Invalid assignment target.'')
            else Some (Inr c2)) = Some w"
        then show "(if prec < PrecedenceAssignment \<and> check c2 TEqual
            then expression E (Suc n) (errorAt (advance c2) (current (p c2)) ''Invalid assignment target.'')
            else Some (Inr c2)) = Some w"
          unfolding expression_def
          by (cases "prec < PrecedenceAssignment \<and> check c2 TEqual") (auto dest: ihp)
      qed
    qed
    then show ?thesis
      by (simp only: parsePrecedence_unfold Some option.case)
  qed
  have L: "infixLoop E (Suc (Suc n)) prec ca c = Some r"
    if h: "infixLoop E (Suc n) prec ca c = Some r" for prec ca c r
  proof (cases "prec < precedence (parseRules E (Type (current (p c))))")
    case False
    with h show ?thesis by (simp only: infixLoop_unfold if_False)
  next
    case True
    show ?thesis
    proof (cases "infixRule (parseRules E (Type (current (p c))))")
      case None
      with h True show ?thesis by (simp only: infixLoop_unfold if_True option.case)
    next
      case (Some g)
      from h True have h': "andThen (callRule E (parsePrecedence E n) g ca (advance c)) (infixLoop E n prec ca) = Some r"
        by (simp only: infixLoop_unfold if_True Some option.case)
      have "andThen (callRule E (parsePrecedence E (Suc n)) g ca (advance c)) (infixLoop E (Suc n) prec ca) = Some r"
        by (rule andThen_mono[OF h']) (erule cr, erule ihl)
      with True show ?thesis by (simp only: infixLoop_unfold if_True Some option.case)
    qed
  qed
  from P L show ?case by blast
qed


lemma parsePrecedence_fuel:
  "parsePrecedence E n prec c = Some r \<Longrightarrow> parsePrecedence E (n + k) prec c = Some r"
proof (induction k)
  case 0
  then show ?case by simp
next
  case (Suc k)
  then have "parsePrecedence E (n + k) prec c = Some r" by simp
  with parse_fuel_Suc[of E "n + k"] have "parsePrecedence E (Suc (n + k)) prec c = Some r" by blast
  then show ?case by (simp only: add_Suc_right)
qed

lemma statement_fuel_Suc:
  assumes "statement E n c = Some r"
  shows "statement E (Suc n) c = Some r"
proof -
  have e: "expression E (Suc n) c = Some z" if "expression E n c = Some z" for c z
    using that parse_fuel_Suc[of E n] unfolding expression_def by blast
  have es: "expressionStatement E (Suc n) c = Some r" if "expressionStatement E n c = Some r" for c
    using that unfolding expressionStatement_def by (rule andThen_mono) (erule e, assumption)
  have rs: "returnStatement E (Suc n) c = Some r" if "returnStatement E n c = Some r" for c
  proof (cases "check c TNewline")
    case True
    with that show ?thesis by (simp add: returnStatement_def match_def)
  next
    case False
    with that have "andThen (expression E n c) (\<lambda>c1.
                    let c1 = emitOpCode c1 OpReturn
                    in Some (Inr (if \<not> check c TFn then expectNewlineOrSemicolon c1 else c1))) = Some r"
      by (simp add: returnStatement_def match_def Let_def)
    then have "andThen (expression E (Suc n) c) (\<lambda>c1.
                    let c1 = emitOpCode c1 OpReturn
                    in Some (Inr (if \<not> check c TFn then expectNewlineOrSemicolon c1 else c1))) = Some r"
      by (rule andThen_mono) (erule e, assumption)
    with False show ?thesis by (simp add: returnStatement_def match_def Let_def)
  qed
  from assms show ?thesis
    unfolding statement_def by (cases "check c TReturn") (auto simp: match_def dest: es rs)
qed

lemma declarationLoop_fuel_Suc:
  "declarationLoop E n c = Some r \<Longrightarrow> declarationLoop E (Suc n) c = Some r"
proof (induction n arbitrary: c r)
  case 0
  then show ?case by simp
next
  case (Suc n)
  show ?case
  proof (cases "check c TEof")
    case True
    with Suc.prems show ?thesis by (simp add: match_def)
  next
    case False
    with Suc.prems have "andThen (statement E n c) (declarationLoop E n) = Some r"
      by (simp add: match_def declaration'_def)
    then have "andThen (statement E (Suc n) c) (declarationLoop E (Suc n)) = Some r"
      by (rule andThen_mono) (erule statement_fuel_Suc, erule Suc.IH)
    with False show ?thesis by (simp add: match_def declaration'_def)
  qed
qed

lemma Compile_fuel_Suc:
  assumes "Compile E n c = Some r"
  shows "Compile E (Suc n) c = Some r"
  using assms unfolding Compile_def
  by (rule andThen_mono) (erule declarationLoop_fuel_Suc, assumption)

lemma Compile_fuel:
  "Compile E n c = Some r \<Longrightarrow> Compile E (n + k) c = Some r"
proof (induction k)
  case 0
  then show ?case by simp
next
  case (Suc k)
  then have "Compile E (Suc (n + k)) c = Some r" by (simp add: Compile_fuel_Suc)
  then show ?case by (simp only: add_Suc_right)
qed

section \<open>The claims\<close>

subsection \<open>C10: a newline counts as present after a closing brace\<close>

definition afterBrace :: "nat Compiler" where
  "afterBrace = NewCompiler \<lparr>current = tok TNumber ''1'', previous = tok TRightBrace ''}'',
                              upcoming = [tok TNumber ''2'']\<rparr>"

text \<open>
  Claim C10.  Whenever the previously consumed token is a closing brace, \<open>check\<close> for a
  newline is true whatever the current token is.  So \<open>match\<close> for a newline answers true and
  advances, \<open>consume\<close> for a newline advances without a diagnostic of its own, and the
  advance makes the current token the previous one: the current token is consumed.
\<close>

theorem check_Newline_after_RightBrace:
  assumes "Type (previous (p c)) = TRightBrace"
  shows "check c TNewline \<and>
         match c TNewline = (True, advance c) \<and>
         consume c TNewline msg = advance c \<and>
         previous (p (advance c)) = current (p c)"
  using assms advance_props[of c] by (simp add: check_def match_def consume_def)

text \<open>
  The witness: the previous token is \<^verbatim>\<open>}\<close> and the current one the number \<^verbatim>\<open>1\<close>, which
  \<open>match\<close> and \<open>consume\<close> take as if it were a newline.
\<close>

theorem check_Newline_after_RightBrace_witness:
  "Type (previous (p afterBrace)) = TRightBrace \<and>
   Type (current (p afterBrace)) = TNumber \<and>
   check afterBrace TNewline \<and>
   fst (match afterBrace TNewline) \<and>
   Lexeme (previous (p (snd (match afterBrace TNewline)))) = ''1'' \<and>
   Lexeme (previous (p (consume afterBrace TNewline ''Expect newline.''))) = ''1'' \<and>
   stderr (consume afterBrace TNewline ''Expect newline.'') = []"
proof -
  have h: "Type (previous (p afterBrace)) = TRightBrace"
    by code_simp
  have e: "Type (current (p afterBrace)) = TNumber"
    "Lexeme (current (p afterBrace)) = ''1''"
    "stderr (advance afterBrace) = []"
    by code_simp+
  from check_Newline_after_RightBrace[OF h, of "''Expect newline.''"] h e show ?thesis
    by simp
qed

subsection \<open>C6: the panic flag is never cleared\<close>

text \<open>
  Claim C6.  The first diagnostic sets \<open>panicMode\<close> (and \<open>hadError\<close>).  From then on
  \<open>errorAt\<close> changes nothing, and no method clears the flag: a parse, the declaration loop
  and the whole of \<open>Compile\<close>, started with the flag set, end with the flag set and with the
  diagnostics they started with.  A compilation that starts from a new compiler therefore
  records one diagnostic at most, and \<open>hadError\<close> and \<open>panicMode\<close> are set exactly when it
  recorded one.
\<close>

theorem panicMode_never_cleared:
  "(\<not> panicMode c \<longrightarrow>
      panicMode (errorAt c t m) \<and> hadError (errorAt c t m) \<and>
      (\<exists>d. stderr (errorAt c t m) = stderr c @ [d] \<and> message d = m \<and> atLine d = Line t)) \<and>
   (panicMode c \<longrightarrow> errorAt c t m = c) \<and>
   (panicMode c \<longrightarrow> parsePrecedence E n prec c = Some (Inr c1) \<longrightarrow>
      panicMode c1 \<and> stderr c1 = stderr c \<and> hadError c1 = hadError c) \<and>
   (panicMode c \<longrightarrow> declarationLoop E n c = Some (Inr c2) \<longrightarrow>
      panicMode c2 \<and> stderr c2 = stderr c \<and> hadError c2 = hadError c) \<and>
   (panicMode c \<longrightarrow> Compile E n c = Some (Inr (r, c3)) \<longrightarrow>
      panicMode c3 \<and> stderr c3 = stderr c \<and> hadError c3 = hadError c) \<and>
   (Compile E n (NewCompiler ps) = Some (Inr (r', c4)) \<longrightarrow>
      length (stderr c4) \<le> 1 \<and> (panicMode c4 \<longleftrightarrow> stderr c4 \<noteq> []) \<and> (hadError c4 \<longleftrightarrow> stderr c4 \<noteq> []))"
proof (intro conjI impI)
  assume "parsePrecedence E n prec c = Some (Inr c1)" "panicMode c"
  then show "panicMode c1" "stderr c1 = stderr c" "hadError c1 = hadError c"
    using respected_parsePrecedence[OF respected_errStep, of E n prec c c1]
    by (auto simp: errStep_def)
next
  assume "declarationLoop E n c = Some (Inr c2)" "panicMode c"
  then show "panicMode c2" "stderr c2 = stderr c" "hadError c2 = hadError c"
    using respected_declarationLoop[OF respected_errStep, of E n c c2]
    by (auto simp: errStep_def)
next
  assume "Compile E n c = Some (Inr (r, c3))" "panicMode c"
  then show "panicMode c3" "stderr c3 = stderr c" "hadError c3 = hadError c"
    using Compile_errStep[of E n c r c3]
    by (auto simp: errStep_def)
next
  assume "Compile E n (NewCompiler ps) = Some (Inr (r', c4))"
  from Compile_errStep[OF this]
  show "length (stderr c4) \<le> 1" "panicMode c4 \<longleftrightarrow> stderr c4 \<noteq> []" "hadError c4 \<longleftrightarrow> stderr c4 \<noteq> []"
    by (auto simp: errStep_def NewCompiler_def butlast_conv_take)
qed (auto simp: errorAt_def)

text \<open>
  The witness: a first diagnostic on a new compiler sets both flags, a second call of
  \<open>errorAt\<close> changes nothing, and the source \<^verbatim>\<open>) )\<close>, two statements with a syntax error each,
  leaves one diagnostic.
\<close>

theorem panicMode_never_cleared_witness:
  "\<not> panicMode (fresh []) \<and>
   panicMode (errorAt (fresh []) (tok TPlus ''+'') ''Expect expression.'') \<and>
   hadError (errorAt (fresh []) (tok TPlus ''+'') ''Expect expression.'') \<and>
   errorAt (errorAt (fresh []) (tok TPlus ''+'') ''Expect expression.'') (tok TStar ''*'') ''Second.''
     = errorAt (fresh []) (tok TPlus ''+'') ''Expect expression.'' \<and>
   returns (Compile specEnv 9 (fresh [tok TRightParen '')'', tok TRightParen '')'']))
     (\<lambda>(r, c'). r = None \<and> code (chunk c') = [uint8 OpPop, uint8 OpReturn] \<and>
                 map message (stderr c') = [''Expect expression.''] \<and> panicMode c' \<and> hadError c')"
proof -
  let ?c = "fresh [] :: nat Compiler"
  let ?t = "tok TPlus ''+''"
  let ?m = "''Expect expression.''"
  let ?e = "errorAt ?c ?t ?m"
  let ?X = "Compile specEnv 9 (fresh [tok TRightParen '')'', tok TRightParen '')''])"
  have t1: "\<not> panicMode ?c" by code_simp
  have ev: "returns ?X (\<lambda>(r, c'). r = None \<and> code (chunk c') = [uint8 OpPop, uint8 OpReturn] \<and>
                 map message (stderr c') = [''Expect expression.''])"
    by code_simp
  from ev obtain x where X: "?X = Some (Inr x)"
    and fx: "(\<lambda>(r, c'). r = None \<and> code (chunk c') = [uint8 OpPop, uint8 OpReturn] \<and>
                 map message (stderr c') = [''Expect expression.'']) x"
    by (rule returnsE)
  obtain r c' where x: "x = (r, c')" by (cases x)
  from fx x have f: "r = None" "code (chunk c') = [uint8 OpPop, uint8 OpReturn]"
           "map message (stderr c') = [''Expect expression.'']"
    by simp_all
  have p1: "panicMode ?e \<and> hadError ?e"
    using panicMode_never_cleared[of ?c ?t ?m, THEN conjunct1] t1 by blast
  then have pe: "panicMode ?e" ..
  have p2: "errorAt ?e (tok TStar ''*'') ''Second.'' = ?e"
    using panicMode_never_cleared[of ?e "tok TStar ''*''" "''Second.''", THEN conjunct2, THEN conjunct1] pe
    by (rule mp)
  have X': "Compile specEnv 9 (NewCompiler (NewParser eofToken [tok TRightParen '')'', tok TRightParen '')''])) = Some (Inr (r, c'))"
    using X x by (simp add: fresh_def)
  have ne: "stderr c' \<noteq> []" using f(3) by auto
  have p3: "panicMode c' \<and> hadError c'"
    using panicMode_never_cleared[where E = specEnv and n = 9
      and ps = "NewParser eofToken [tok TRightParen '')'', tok TRightParen '')'']" and r' = r and ?c4.0 = c',
      THEN conjunct2, THEN conjunct2, THEN conjunct2, THEN conjunct2, THEN conjunct2, THEN mp, OF X'] ne
    by blast
  have R: "returns ?X (\<lambda>(r, c'). r = None \<and> code (chunk c') = [uint8 OpPop, uint8 OpReturn] \<and>
                 map message (stderr c') = [''Expect expression.''] \<and> panicMode c' \<and> hadError c')"
    unfolding returns_def X x using f p3 by simp
  show ?thesis using t1 p1 p2 R by blast
qed

subsection \<open>C1: the result of \<open>Compile\<close>\<close>

text \<open>
  Whenever \<open>Compile\<close> returns on a new compiler, it returns \<^verbatim>\<open>nil\<close> if and only if a
  diagnostic was recorded, which is when \<open>hadError\<close> is set, and the chunk of the compiler
  otherwise.  The first example is \<^verbatim>\<open>1 + 1\<close>, the second \<^verbatim>\<open>1 2\<close>.
\<close>

lemma Compile_nil_iff_diagnostic:
  assumes "Compile E n (NewCompiler ps) = Some (Inr (r, c'))"
  shows "(r = None \<longleftrightarrow> stderr c' \<noteq> []) \<and>
         (hadError c' \<longleftrightarrow> stderr c' \<noteq> []) \<and>
         r = (if hadError c' then None else Some (chunk c'))"
proof -
  from Compile_Inr[OF assms] obtain c1 where
    c': "c' = c1 \<or> (\<exists>ch. c' = c1\<lparr>chunk := ch\<rparr>)"
    and r: "r = (if hadError c1 then None else Some (chunk c'))"
    by metis
  from c' have h: "hadError c' = hadError c1" by auto
  from Compile_errStep[OF assms] have e: "hadError c' \<longleftrightarrow> stderr c' \<noteq> []"
    by (auto simp: errStep_def NewCompiler_def)
  from r h e show ?thesis by simp
qed

lemma Compile_nil_iff_diagnostic_examples:
  "returns (Compile specEnv 9 (fresh [tok TNumber ''1'', tok TPlus ''+'', tok TNumber ''1'']))
     (\<lambda>(r, c'). stderr c' = [] \<and> \<not> hadError c' \<and>
        r = Some \<lparr>code = [0, 0, 0, 0, 0, 1, 8, 5], constants = [Number 1, Number 1]\<rparr>) \<and>
   returns (Compile specEnv 9 (fresh [tok TNumber ''1'', tok TNumber ''2'']))
     (\<lambda>(r, c'). map message (stderr c') = [''Expect newline or ';'.''] \<and> hadError c' \<and> r = None)"
proof -
  let ?A = "Compile specEnv 9 (fresh [tok TNumber ''1'', tok TPlus ''+'', tok TNumber ''1''])"
  let ?B = "Compile specEnv 9 (fresh [tok TNumber ''1'', tok TNumber ''2''])"
  have evA: "returns ?A (\<lambda>(r, c'). stderr c' = [] \<and>
        chunk c' = \<lparr>code = [0, 0, 0, 0, 0, 1, 8, 5], constants = [Number 1, Number 1]\<rparr>)"
    by code_simp
  have evB: "returns ?B (\<lambda>(r, c'). map message (stderr c') = [''Expect newline or ';'.''])"
    by code_simp
  from evA obtain x where A: "?A = Some (Inr x)"
    and fx: "(\<lambda>(r, c'). stderr c' = [] \<and>
        chunk c' = \<lparr>code = [0, 0, 0, 0, 0, 1, 8, 5], constants = [Number 1, Number 1]\<rparr>) x"
    by (rule returnsE)
  obtain r c' where x: "x = (r, c')" by (cases x)
  from fx x have fA: "stderr c' = []"
    "chunk c' = \<lparr>code = [0, 0, 0, 0, 0, 1, 8, 5], constants = [Number 1, Number 1]\<rparr>"
    by simp_all
  from evB obtain y where B: "?B = Some (Inr y)"
    and fy: "(\<lambda>(r, c'). map message (stderr c') = [''Expect newline or ';'.'']) y"
    by (rule returnsE)
  obtain r2 c2 where y: "y = (r2, c2)" by (cases y)
  from fy y have fB: "map message (stderr c2) = [''Expect newline or ';'.'']" by simp
  then have neB: "stderr c2 \<noteq> []" by auto
  have TA: "hadError c' = (stderr c' \<noteq> []) \<and> r = (if hadError c' then None else Some (chunk c'))"
    using Compile_nil_iff_diagnostic[of specEnv 9 "NewParser eofToken [tok TNumber ''1'', tok TPlus ''+'', tok TNumber ''1'']" r c']
      A x by (simp add: fresh_def)
  have TB: "(r2 = None) = (stderr c2 \<noteq> []) \<and> hadError c2 = (stderr c2 \<noteq> [])"
    using Compile_nil_iff_diagnostic[of specEnv 9 "NewParser eofToken [tok TNumber ''1'', tok TNumber ''2'']" r2 c2]
      B y by (simp add: fresh_def)
  have RA: "returns ?A (\<lambda>(r, c'). stderr c' = [] \<and> \<not> hadError c' \<and>
        r = Some \<lparr>code = [0, 0, 0, 0, 0, 1, 8, 5], constants = [Number 1, Number 1]\<rparr>)"
    unfolding returns_def A x using TA fA by simp
  have RB: "returns ?B (\<lambda>(r, c'). map message (stderr c') = [''Expect newline or ';'.''] \<and> hadError c' \<and> r = None)"
    unfolding returns_def B y using TB fB neB by simp
  from RA RB show ?thesis ..
qed

text \<open>
  Claim C1.  The claim promises the completed chunk whenever no diagnostic was recorded.
  The code does not keep that promise on a source without a statement: the empty source, and
  a source of two newlines, leave the declaration loop with no diagnostic, \<open>hadError\<close> unset
  and no code, and the read of \<^verbatim>\<open>c.chunk.code[len(c.chunk.code)-1]\<close> panics before
  \<open>hadError\<close> is looked at.  \<open>Compile\<close> returns neither \<^verbatim>\<open>nil\<close> nor the chunk.
\<close>

theorem Compile_blank_source_no_chunk:
  "returns (declarationLoop specEnv 9 (leadingLoop (fresh [])))
     (\<lambda>c1. stderr c1 = [] \<and> \<not> hadError c1 \<and> code (chunk c1) = []) \<and>
   Compile specEnv 9 (fresh []) = Some (Inl IndexOutOfRange) \<and>
   returns (declarationLoop specEnv 9 (leadingLoop (fresh [tok TNewline [], tok TNewline []])))
     (\<lambda>c1. stderr c1 = [] \<and> \<not> hadError c1 \<and> code (chunk c1) = []) \<and>
   Compile specEnv 9 (fresh [tok TNewline [], tok TNewline []]) = Some (Inl IndexOutOfRange)"
  by code_simp

subsection \<open>C5: the statement terminator\<close>




subsection \<open>C9: \<open>Compile\<close> panics on a source without a statement\<close>

text \<open>
  Claim C9.  \<open>Compile\<close> is not total.  When the token source yields newline and end-of-input
  tokens only, the first loop stops at an end-of-input token, the declaration loop parses no
  statement, the code is empty, and the patch of the last instruction reads index
  \<^verbatim>\<open>len(code)-1\<close> of an empty sequence: the call panics, returning neither a chunk nor
  \<^verbatim>\<open>nil\<close>.  This holds for every parse-rule table, for whatever the token source holds as
  its first current and previous token, and as soon as the fuel allows one round of the
  declaration loop.
\<close>

theorem Compile_panics_on_blank_source:
  assumes "\<forall>t \<in> set (upcoming ps). Type t = TNewline \<or> Type t = TEof"
  shows "Compile E (Suc n) (NewCompiler ps) = Some (Inl IndexOutOfRange)"
proof -
  let ?c = "NewCompiler ps :: 'a Compiler"
  let ?c1 = "leadingLoop ?c"
  note l = leadingLoop_props[of ?c]
  have up: "upcoming (p ?c) = upcoming ps" by (simp add: NewCompiler_def)
  from l assms have "Type (current (p ?c1)) = TNewline \<or> Type (current (p ?c1)) = TEof"
    unfolding up by (auto simp: eofToken_def)
  moreover from l have "Type (current (p ?c1)) \<noteq> TNewline"
    by (auto simp: check_def split: if_splits)
  ultimately have eof: "check ?c1 TEof" by (simp add: check_def)
  then have d: "declarationLoop E (Suc n) ?c1 = Some (Inr (advance ?c1))"
    by (simp add: match_def)
  have "chunk (advance ?c1) = chunk ?c" using advance_props[of ?c1] l by simp
  then have "code (chunk (advance ?c1)) = []" by (simp add: NewCompiler_def NewChunk_def)
  then show ?thesis
    unfolding Compile_def d by (simp add: andThen_def)
qed

text \<open>The witness: a source of two newlines, and the empty source.\<close>

theorem Compile_panics_on_blank_source_witness:
  "map Type (upcoming (NewParser eofToken [tok TNewline [], tok TNewline []])) = [TNewline, TNewline] \<and>
   Compile specEnv 1 (fresh [tok TNewline [], tok TNewline []]) = Some (Inl IndexOutOfRange) \<and>
   Compile specEnv 9 (fresh []) = Some (Inl IndexOutOfRange)"
proof -
  have h1: "\<forall>t \<in> set (upcoming (NewParser eofToken [tok TNewline [], tok TNewline []])). Type t = TNewline \<or> Type t = TEof"
    by (simp add: NewParser_def tok_def)
  have h2: "\<forall>t \<in> set (upcoming (NewParser eofToken [])). Type t = TNewline \<or> Type t = TEof"
    by (simp add: NewParser_def)
  have h3: "map Type (upcoming (NewParser eofToken [tok TNewline [], tok TNewline []])) = [TNewline, TNewline]"
    by (simp add: NewParser_def tok_def)
  from Compile_panics_on_blank_source[OF h1, of specEnv 0] Compile_panics_on_blank_source[OF h2, of specEnv 8] h3
  show ?thesis
    by (simp add: fresh_def eval_nat_numeral)
qed

subsection \<open>C2: the last \<open>Pop\<close> becomes a \<open>Return\<close>\<close>

text \<open>
  Claim C2.  When \<open>Compile\<close> returns on a new compiler, the code that the declaration loop
  left is a sequence of instructions whose last one, \<open>opc\<close>, is an opcode without operand.
  If it is \<open>Pop\<close>, the returned code is the same sequence with \<open>Return\<close> in its place; if it is
  not, the code is unchanged.  The constants are unchanged in both cases.
\<close>

theorem Compile_patches_last_Pop:
  assumes "Compile E n (NewCompiler ps) = Some (Inr (r, c'))"
  shows "\<exists>c1 is opc.
           declarationLoop E n (leadingLoop (NewCompiler ps)) = Some (Inr c1) \<and>
           IOp OpConstant \<notin> set is \<and>
           code (chunk c1) = encodes (is @ [IOp opc]) \<and>
           (opc = OpPop \<longrightarrow> code (chunk c') = encodes (is @ [IOp OpReturn])) \<and>
           (opc \<noteq> OpPop \<longrightarrow> code (chunk c') = code (chunk c1)) \<and>
           constants (chunk c') = constants (chunk c1)"
proof -
  let ?c = "NewCompiler ps :: 'a Compiler"
  from Compile_Inr[OF assms] obtain c1 where
    c1: "declarationLoop E n (leadingLoop ?c) = Some (Inr c1)"
    and ne: "code (chunk c1) \<noteq> []"
    and c': "c' = (if last (code (chunk c1)) = uint8 OpPop
                 then c1\<lparr>chunk := (chunk c1)\<lparr>code := butlast (code (chunk c1)) @ [uint8 OpReturn]\<rparr>\<rparr>
                 else c1)"
    by blast
  have l: "chunk (leadingLoop ?c) = chunk ?c" using leadingLoop_props by blast
  have e: "code (chunk ?c) = []" by (simp add: NewCompiler_def NewChunk_def)
  from declarationLoop_code[OF c1] ne l e have "statementCode (leadingLoop ?c) c1"
    by auto
  then obtain "is" opc where
    ins: "IOp OpConstant \<notin> set is" "code (chunk c1) = encodes (is @ [IOp opc])"
    unfolding statementCode_def l e by auto
  have la: "last (code (chunk c1)) = uint8 OpPop \<longleftrightarrow> opc = OpPop"
    unfolding ins(2) last_encodes by (rule uint8_inj)
  have "opc = OpPop \<longrightarrow> code (chunk c') = encodes (is @ [IOp OpReturn])"
    using c' la ins(2) by (simp add: butlast_encodes) (simp add: encodes_def)
  moreover have "opc \<noteq> OpPop \<longrightarrow> code (chunk c') = code (chunk c1)"
    using c' la by simp
  moreover have "constants (chunk c') = constants (chunk c1)"
    using c' by simp
  ultimately show ?thesis using c1 ins by blast
qed

text \<open>
  The witness: \<^verbatim>\<open>1 + 1\<close> ends in a \<open>Pop\<close> (byte 4), which becomes \<open>Return\<close> (byte 5);
  \<^verbatim>\<open>return 1\<close> ends in a \<open>Return\<close> and its code stays as it is.
\<close>

theorem Compile_patches_last_Pop_witness:
  "returns (declarationLoop specEnv 9 (leadingLoop (fresh [tok TNumber ''1'', tok TPlus ''+'', tok TNumber ''1''])))
     (\<lambda>c1. code (chunk c1) = [0, 0, 0, 0, 0, 1, 8, 4]) \<and>
   returns (Compile specEnv 9 (fresh [tok TNumber ''1'', tok TPlus ''+'', tok TNumber ''1'']))
     (\<lambda>(r, c'). code (chunk c') = [0, 0, 0, 0, 0, 1, 8, 5]) \<and>
   returns (declarationLoop specEnv 9 (leadingLoop (fresh [tok TReturn ''return'', tok TNumber ''1''])))
     (\<lambda>c1. code (chunk c1) = [0, 0, 0, 5]) \<and>
   returns (Compile specEnv 9 (fresh [tok TReturn ''return'', tok TNumber ''1'']))
     (\<lambda>(r, c'). code (chunk c') = [0, 0, 0, 5])"
proof -
  let ?A = "[tok TNumber ''1'', tok TPlus ''+'', tok TNumber ''1'']"
  let ?B = "[tok TReturn ''return'', tok TNumber ''1'']"
  have dA: "returns (declarationLoop specEnv 9 (leadingLoop (fresh ?A)))
     (\<lambda>c1. code (chunk c1) = [0, 0, 0, 0, 0, 1, 8, 4])"
    by code_simp
  have dB: "returns (declarationLoop specEnv 9 (leadingLoop (fresh ?B)))
     (\<lambda>c1. code (chunk c1) = [0, 0, 0, 5])"
    by code_simp
  have cA: "returns (Compile specEnv 9 (fresh ?A)) (\<lambda>x. True)" by code_simp
  have cB: "returns (Compile specEnv 9 (fresh ?B)) (\<lambda>x. True)" by code_simp
  have A: "returns (Compile specEnv 9 (fresh ?A)) (\<lambda>(r, c'). code (chunk c') = [0, 0, 0, 0, 0, 1, 8, 5])"
  proof -
    from cA obtain x where x: "Compile specEnv 9 (fresh ?A) = Some (Inr x)" by (rule returnsE)
    obtain r c' where rc: "x = (r, c')" by (cases x)
    from x rc have "Compile specEnv 9 (NewCompiler (NewParser eofToken ?A)) = Some (Inr (r, c'))"
      by (simp add: fresh_def)
    from Compile_patches_last_Pop[OF this] obtain c1 "is" opc where
      d: "declarationLoop specEnv 9 (leadingLoop (fresh ?A)) = Some (Inr c1)"
      and e: "code (chunk c1) = encodes (is @ [IOp opc])"
      and pop: "opc = OpPop \<longrightarrow> code (chunk c') = encodes (is @ [IOp OpReturn])"
      unfolding fresh_def by blast
    from dA d have k: "code (chunk c1) = [0, 0, 0, 0, 0, 1, 8, 4]"
      by (auto elim: returnsE)
    from arg_cong[OF e, of last] have "uint8 opc = uint8 OpPop"
      unfolding last_encodes k by simp
    then have "opc = OpPop" by (simp only: uint8_inj)
    moreover from arg_cong[OF e, of butlast] have "encodes is = [0, 0, 0, 0, 0, 1, 8]"
      unfolding butlast_encodes k by simp
    ultimately have "code (chunk c') = [0, 0, 0, 0, 0, 1, 8, 5]"
      using pop by (simp add: encodes_def)
    then show ?thesis unfolding returns_def x rc by simp
  qed
  have B: "returns (Compile specEnv 9 (fresh ?B)) (\<lambda>(r, c'). code (chunk c') = [0, 0, 0, 5])"
  proof -
    from cB obtain x where x: "Compile specEnv 9 (fresh ?B) = Some (Inr x)" by (rule returnsE)
    obtain r c' where rc: "x = (r, c')" by (cases x)
    from x rc have "Compile specEnv 9 (NewCompiler (NewParser eofToken ?B)) = Some (Inr (r, c'))"
      by (simp add: fresh_def)
    from Compile_patches_last_Pop[OF this] obtain c1 "is" opc where
      d: "declarationLoop specEnv 9 (leadingLoop (fresh ?B)) = Some (Inr c1)"
      and e: "code (chunk c1) = encodes (is @ [IOp opc])"
      and keep: "opc \<noteq> OpPop \<longrightarrow> code (chunk c') = code (chunk c1)"
      unfolding fresh_def by blast
    from dB d have k: "code (chunk c1) = [0, 0, 0, 5]"
      by (auto elim: returnsE)
    from arg_cong[OF e, of last] have "uint8 opc = uint8 OpReturn"
      unfolding last_encodes k by simp
    then have "opc = OpReturn" by (simp only: uint8_inj)
    with keep k have "code (chunk c') = [0, 0, 0, 5]" by simp
    then show ?thesis unfolding returns_def x rc by simp
  qed
  from dA A dB B show ?thesis by blast
qed

subsection \<open>C3: precedence climbing\<close>

text \<open>
  Claim C3.  For every minimum level \<open>prec\<close>, \<open>parsePrecedence\<close> consumes one token (the
  current token becomes the previous one) and looks up the prefix rule of that token's type.
  Without a prefix rule it calls \<open>errorAt\<close> on the consumed token with the message
  \<^verbatim>\<open>Expect expression.\<close> and returns: no rule is invoked, the chunk is as before, and the
  message is recorded unless an earlier diagnostic suppresses it.  With a prefix rule \<open>f\<close> it
  invokes \<open>f\<close> and then runs the loop: while the level of the current token strictly exceeds
  \<open>prec\<close>, that token is consumed and its infix rule is invoked (a \<^verbatim>\<open>nil\<close> infix rule
  panics); the loop ends at a token whose level does not exceed \<open>prec\<close>.
\<close>

theorem parsePrecedence_climbs:
  "previous (p (advance c)) = current (p c) \<and>
   (prefixRule (parseRules E (Type (current (p c)))) = None \<longrightarrow>
      parsePrecedence E (Suc n) prec c =
        Some (Inr (errorAt (advance c) (current (p c)) ''Expect expression.'')) \<and>
      chunk (errorAt (advance c) (current (p c)) ''Expect expression.'') = chunk c \<and>
      (\<not> panicMode (advance c) \<longrightarrow>
         map message (stderr (errorAt (advance c) (current (p c)) ''Expect expression.'')) =
         map message (stderr (advance c)) @ [''Expect expression.''])) \<and>
   (prefixRule (parseRules E (Type (current (p c)))) = Some f \<longrightarrow>
      parsePrecedence E (Suc n) prec c =
        andThen (callRule E (parsePrecedence E n) f (prec < PrecedenceAssignment) (advance c)) (\<lambda>c1.
        andThen (infixLoop E n prec (prec < PrecedenceAssignment) c1) (\<lambda>c2.
          if prec < PrecedenceAssignment \<and> check c2 TEqual
          then expression E n (errorAt (advance c2) (current (p c2)) ''Invalid assignment target.'')
          else Some (Inr c2)))) \<and>
   infixLoop E (Suc n) prec ca c =
     (if prec < precedence (parseRules E (Type (current (p c))))
      then (case infixRule (parseRules E (Type (current (p c)))) of
              None \<Rightarrow> Some (Inl NilFunction)
            | Some g \<Rightarrow> andThen (callRule E (parsePrecedence E n) g ca (advance c))
                                (infixLoop E n prec ca))
      else Some (Inr c)) \<and>
   (infixLoop E m prec ca c = Some (Inr c') \<longrightarrow>
      precedence (parseRules E (Type (current (p c')))) \<le> prec)"
  using infixLoop_exit[of E m prec ca c c']
  by (simp add: parsePrecedence_unfold infixLoop_unfold errorAt_def del: parsePrecedence.simps infixLoop.simps)

text \<open>
  The witness: \<^verbatim>\<open>+\<close> has no prefix rule; and at the minimum level Term, \<^verbatim>\<open>1 * 2 + 3\<close> is
  parsed up to the \<^verbatim>\<open>+\<close>, whose level Term does not exceed the minimum.
\<close>

theorem parsePrecedence_climbs_witness:
  "returns (parsePrecedence specEnv (Suc 0) PrecedenceAssignment (leadingLoop (fresh [tok TPlus ''+''])))
     (\<lambda>c'. map message (stderr c') = [''Expect expression.''] \<and> code (chunk c') = [] \<and>
            Type (previous (p c')) = TPlus) \<and>
   returns (parsePrecedence specEnv (Suc 8) PrecedenceTerm
              (leadingLoop (fresh [tok TNumber ''1'', tok TStar ''*'', tok TNumber ''2'', tok TPlus ''+'', tok TNumber ''3''])))
     (\<lambda>c'. code (chunk c') = [0, 0, 0, 0, 0, 1, 10] \<and> Type (current (p c')) = TPlus \<and> stderr c' = [])"
proof -
  let ?a = "leadingLoop (fresh [tok TPlus ''+''])"
  let ?b = "leadingLoop (fresh [tok TNumber ''1'', tok TStar ''*'', tok TNumber ''2'', tok TPlus ''+'', tok TNumber ''3''])"
  have ha: "prefixRule (parseRules specEnv (Type (current (p ?a)))) = None" by code_simp
  have hb: "prefixRule (parseRules specEnv (Type (current (p ?b)))) = Some NumberFn" by code_simp
  note A = parsePrecedence_climbs[where c = ?a and E = specEnv and n = 0 and prec = PrecedenceAssignment,
             THEN conjunct2, THEN conjunct1, THEN mp, OF ha, THEN conjunct1]
  note B = parsePrecedence_climbs[where c = ?b and E = specEnv and f = NumberFn and n = 8 and prec = PrecedenceTerm,
             THEN conjunct2, THEN conjunct2, THEN conjunct1, THEN mp, OF hb]
  have ea: "(\<lambda>c'. map message (stderr c') = [''Expect expression.''] \<and> code (chunk c') = [] \<and>
            Type (previous (p c')) = TPlus)
          (errorAt (advance ?a) (current (p ?a)) ''Expect expression.'')"
    by code_simp
  have eb: "returns
     (andThen (callRule specEnv (parsePrecedence specEnv 8) NumberFn (PrecedenceTerm < PrecedenceAssignment) (advance ?b)) (\<lambda>c1.
        andThen (infixLoop specEnv 8 PrecedenceTerm (PrecedenceTerm < PrecedenceAssignment) c1) (\<lambda>c2.
          if PrecedenceTerm < PrecedenceAssignment \<and> check c2 TEqual
          then expression specEnv 8 (errorAt (advance c2) (current (p c2)) ''Invalid assignment target.'')
          else Some (Inr c2))))
     (\<lambda>c'. code (chunk c') = [0, 0, 0, 0, 0, 1, 10] \<and> Type (current (p c')) = TPlus \<and> stderr c' = [])"
    by code_simp
  show ?thesis
    unfolding A B using ea eb by (simp add: returns_def)
qed

subsection \<open>C4: binary operators are left-associative\<close>

text \<open>
  Claim C4.  The infix rule \<open>binary\<close> of an operator token whose table level is \<open>L\<close> parses
  the right operand with \<open>parsePrecedence\<close> at the level \<open>L + 1\<close> and then emits the opcode
  of the operator.  A parse at the level \<open>L + 1\<close> that starts at a token with a prefix rule
  stops at a token whose level is at most \<open>L + 1\<close>; so it leaves a following operator of the
  level \<open>L\<close> to the enclosing loop, which applies it to what has been parsed so far.  On the
  table of the specification every binary operator \<open>T\<close>, the exponent operator among them,
  compiles \<^verbatim>\<open>1 T 2 T 3\<close> to the code of \<^verbatim>\<open>(1 T 2) T 3\<close>.
\<close>

theorem binary_right_operand_one_level_up:
  "binary E pp ca c =
     andThen (pp (precedence (parseRules E (Type (previous (p c)))) + 1) c)
       (\<lambda>c1. Some (Inr (case binaryOpCode (Type (previous (p c))) of
                            Some opc \<Rightarrow> emitOpCode c1 opc
                          | None \<Rightarrow> c1))) \<and>
   (prefixRule (parseRules E (Type (current (p c)))) \<noteq> None \<longrightarrow>
    parsePrecedence E n (L + 1) c = Some (Inr c') \<longrightarrow>
      precedence (parseRules E (Type (current (p c')))) \<le> L + 1) \<and>
   (binaryOpCode T = Some opc \<longrightarrow>
      returns (expression specEnv 9
                 (leadingLoop (fresh [tok TNumber ''1'', tok T lx, tok TNumber ''2'', tok T lx, tok TNumber ''3''])))
        (\<lambda>c'. code (chunk c') = encodes [IConstant 0, IConstant 1, IOp opc, IConstant 2, IOp opc] \<and>
               constants (chunk c') = [Number 1, Number 2, Number 3] \<and> stderr c' = []))"
proof (intro conjI impI)
  show "binary E pp ca c =
     andThen (pp (precedence (parseRules E (Type (previous (p c)))) + 1) c)
       (\<lambda>c1. Some (Inr (case binaryOpCode (Type (previous (p c))) of
                            Some opc \<Rightarrow> emitOpCode c1 opc
                          | None \<Rightarrow> c1)))"
    by (auto simp: binary_def Let_def split: option.splits intro!: arg_cong2[where f = andThen] ext)
next
  assume "prefixRule (parseRules E (Type (current (p c)))) \<noteq> None"
    and "parsePrecedence E n (L + 1) c = Some (Inr c')"
  then show "precedence (parseRules E (Type (current (p c')))) \<le> L + 1"
    by (intro parsePrecedence_exit) (simp_all add: PrecedenceAssignment_def)
next
  assume "binaryOpCode T = Some opc"
  then show "returns (expression specEnv 9
                 (leadingLoop (fresh [tok TNumber ''1'', tok T lx, tok TNumber ''2'', tok T lx, tok TNumber ''3''])))
        (\<lambda>c'. code (chunk c') = encodes [IConstant 0, IConstant 1, IOp opc, IConstant 2, IOp opc] \<and>
               constants (chunk c') = [Number 1, Number 2, Number 3] \<and> stderr c' = [])"
    by (rule left_assoc_spec)
qed

text \<open>
  The witness: the right operand of \<^verbatim>\<open>^\<close> in \<^verbatim>\<open>3 ^ 4\<close>, parsed one level above Exponent,
  is the constant alone and stops at the \<^verbatim>\<open>^\<close>; and \<^verbatim>\<open>1 ^ 2 ^ 3\<close> compiles to
  constant, constant, \<open>Exponentiate\<close> (byte 12), constant, \<open>Exponentiate\<close>.
\<close>

theorem binary_right_operand_one_level_up_witness:
  "returns (parsePrecedence specEnv 9 (PrecedenceExponent + 1)
              (leadingLoop (fresh [tok TNumber ''3'', tok TCaret ''^'', tok TNumber ''4''])))
     (\<lambda>c'. code (chunk c') = [0, 0, 0] \<and> Type (current (p c')) = TCaret \<and>
            precedence (parseRules specEnv (Type (current (p c')))) \<le> PrecedenceExponent + 1) \<and>
   returns (expression specEnv 9
              (leadingLoop (fresh [tok TNumber ''1'', tok TCaret ''^'', tok TNumber ''2'', tok TCaret ''^'', tok TNumber ''3''])))
     (\<lambda>c'. code (chunk c') = [0, 0, 0, 0, 0, 1, 12, 0, 0, 2, 12] \<and>
            constants (chunk c') = [Number 1, Number 2, Number 3])"
proof -
  let ?a = "leadingLoop (fresh [tok TNumber ''3'', tok TCaret ''^'', tok TNumber ''4''])"
  let ?P = "parsePrecedence specEnv 9 (PrecedenceExponent + 1) ?a"
  have ha: "prefixRule (parseRules specEnv (Type (current (p ?a)))) \<noteq> None" by code_simp
  have ev: "returns ?P (\<lambda>c'. code (chunk c') = [0, 0, 0] \<and> Type (current (p c')) = TCaret)"
    by code_simp
  then obtain c' where P: "?P = Some (Inr c')"
    and f: "code (chunk c') = [0, 0, 0] \<and> Type (current (p c')) = TCaret"
    by (rule returnsE)
  note A = binary_right_operand_one_level_up[where E = specEnv and c = ?a and n = 9
             and L = PrecedenceExponent and c' = c',
             THEN conjunct2, THEN conjunct1, THEN mp, OF ha, THEN mp, OF P]
  have R1: "returns ?P (\<lambda>c'. code (chunk c') = [0, 0, 0] \<and> Type (current (p c')) = TCaret \<and>
            precedence (parseRules specEnv (Type (current (p c')))) \<le> PrecedenceExponent + 1)"
    unfolding returns_def P using f A by simp
  have hb: "binaryOpCode TCaret = Some OpExponentiate" by (simp add: binaryOpCode_def)
  note B = binary_right_operand_one_level_up[where T = TCaret and opc = OpExponentiate and lx = "''^''",
             THEN conjunct2, THEN conjunct2, THEN mp, OF hb]
  have enc: "encodes [IConstant 0, IConstant 1, IOp OpExponentiate, IConstant 2, IOp OpExponentiate] =
             [0, 0, 0, 0, 0, 1, 12, 0, 0, 2, 12]"
    by (simp add: encodes_def)
  from B have R2: "returns (expression specEnv 9
              (leadingLoop (fresh [tok TNumber ''1'', tok TCaret ''^'', tok TNumber ''2'', tok TCaret ''^'', tok TNumber ''3''])))
     (\<lambda>c'. code (chunk c') = [0, 0, 0, 0, 0, 1, 12, 0, 0, 2, 12] \<and>
            constants (chunk c') = [Number 1, Number 2, Number 3])"
    unfolding enc by (auto simp: returns_def split: option.splits sum.splits)
  from R1 R2 show ?thesis ..
qed

subsection \<open>C8: a return statement and the token \<^verbatim>\<open>fn\<close>\<close>

text \<open>
  Claim C8 says that the terminator requirement is skipped when the expression of a return
  statement is immediately followed by \<^verbatim>\<open>fn\<close>.  The code decides before it parses the
  expression: \<^verbatim>\<open>needsNewline := !c.check(parser.Fn)\<close> looks at the token that follows
  \<^verbatim>\<open>return\<close>, the first token of the expression.  In \<^verbatim>\<open>return 1 fn\<close> the expression \<^verbatim>\<open>1\<close> is
  parsed without a diagnostic and is immediately followed by \<^verbatim>\<open>fn\<close>; the terminator is
  required all the same, its absence is reported at \<^verbatim>\<open>fn\<close>, and the compilation fails.
\<close>

theorem return_followed_by_fn_counterexample:
  "returns (expression specEnv 9
              (advance (leadingLoop (fresh [tok TReturn ''return'', tok TNumber ''1'', tok TFn ''fn'']))))
     (\<lambda>c1. Type (previous (p c1)) = TNumber \<and> Type (current (p c1)) = TFn \<and> stderr c1 = []) \<and>
   returns (returnStatement specEnv 9
              (advance (leadingLoop (fresh [tok TReturn ''return'', tok TNumber ''1'', tok TFn ''fn'']))))
     (\<lambda>c'. hadError c' \<and> map message (stderr c') = [''Expect newline or ';'.''] \<and>
            map atWhere (stderr c') = ['' at '' @ [CHR 39] @ ''fn'' @ [CHR 39]]) \<and>
   returns (Compile specEnv 9 (fresh [tok TReturn ''return'', tok TNumber ''1'', tok TFn ''fn'']))
     (\<lambda>(r, c'). r = None)"
  by code_simp

text \<open>
  Claim C8 as amended.  A return statement that is not the bare \<^verbatim>\<open>return\<close> before a
  newline parses an expression and emits \<open>Return\<close>.  When the token after \<^verbatim>\<open>return\<close>, with
  which the expression begins, is \<^verbatim>\<open>fn\<close>, the terminator requirement is skipped; for
  every other return statement with an expression, \<open>expectNewlineOrSemicolon\<close> runs after
  the \<open>Return\<close>.
\<close>

theorem returnStatement_terminator:
  "(check c TNewline \<longrightarrow> returnStatement E n c = Some (Inr (emitReturn (advance c)))) \<and>
   (\<not> check c TNewline \<longrightarrow> Type (current (p c)) = TFn \<longrightarrow>
      returnStatement E n c =
        andThen (expression E n c) (\<lambda>c1. Some (Inr (emitOpCode c1 OpReturn)))) \<and>
   (\<not> check c TNewline \<longrightarrow> Type (current (p c)) \<noteq> TFn \<longrightarrow>
      returnStatement E n c =
        andThen (expression E n c) (\<lambda>c1. Some (Inr (expectNewlineOrSemicolon (emitOpCode c1 OpReturn)))))"
  by (simp add: returnStatement_def match_def check_def Let_def)

text \<open>
  The witness: in \<^verbatim>\<open>return fn ;\<close> the separator is left unconsumed; in \<^verbatim>\<open>return 1 ;\<close> it is
  consumed; \<^verbatim>\<open>return\<close> before a newline emits \<open>Nil\<close> and \<open>Return\<close>.
\<close>

theorem returnStatement_terminator_witness:
  "returns (returnStatement specEnv 9
              (advance (leadingLoop (fresh [tok TReturn ''return'', tok TFn ''fn'', tok TSemicolon '';'']))))
     (\<lambda>c'. Type (previous (p c')) = TFn \<and> Type (current (p c')) = TSemicolon \<and>
            code (chunk c') = [uint8 OpReturn]) \<and>
   returns (returnStatement specEnv 9
              (advance (leadingLoop (fresh [tok TReturn ''return'', tok TNumber ''1'', tok TSemicolon '';'']))))
     (\<lambda>c'. Type (previous (p c')) = TSemicolon \<and> Type (current (p c')) = TEof \<and>
            code (chunk c') = [0, 0, 0, uint8 OpReturn] \<and> stderr c' = []) \<and>
   returns (returnStatement specEnv 9
              (advance (leadingLoop (fresh [tok TReturn ''return'', tok TNewline [], tok TNumber ''1'']))))
     (\<lambda>c'. code (chunk c') = [uint8 OpNil, uint8 OpReturn] \<and> Type (current (p c')) = TNumber)"
proof -
  let ?a = "advance (leadingLoop (fresh [tok TReturn ''return'', tok TFn ''fn'', tok TSemicolon '';'']))"
  let ?b = "advance (leadingLoop (fresh [tok TReturn ''return'', tok TNumber ''1'', tok TSemicolon '';'']))"
  let ?c = "advance (leadingLoop (fresh [tok TReturn ''return'', tok TNewline [], tok TNumber ''1'']))"
  have ha: "\<not> check ?a TNewline" "Type (current (p ?a)) = TFn" by code_simp+
  have hb: "\<not> check ?b TNewline" "Type (current (p ?b)) \<noteq> TFn" by code_simp+
  have hc: "check ?c TNewline" by code_simp
  note A = returnStatement_terminator[where c = ?a and E = specEnv and n = 9,
             THEN conjunct2, THEN conjunct1, THEN mp, OF ha(1), THEN mp, OF ha(2)]
  note B = returnStatement_terminator[where c = ?b and E = specEnv and n = 9,
             THEN conjunct2, THEN conjunct2, THEN mp, OF hb(1), THEN mp, OF hb(2)]
  note C = returnStatement_terminator[where c = ?c and E = specEnv and n = 9,
             THEN conjunct1, THEN mp, OF hc]
  have ea: "returns (andThen (expression specEnv 9 ?a) (\<lambda>c1. Some (Inr (emitOpCode c1 OpReturn))))
     (\<lambda>c'. Type (previous (p c')) = TFn \<and> Type (current (p c')) = TSemicolon \<and>
            code (chunk c') = [uint8 OpReturn])"
    by code_simp
  have eb: "returns (andThen (expression specEnv 9 ?b)
                      (\<lambda>c1. Some (Inr (expectNewlineOrSemicolon (emitOpCode c1 OpReturn)))))
     (\<lambda>c'. Type (previous (p c')) = TSemicolon \<and> Type (current (p c')) = TEof \<and>
            code (chunk c') = [0, 0, 0, uint8 OpReturn] \<and> stderr c' = [])"
    by code_simp
  have ec: "(\<lambda>c'. code (chunk c') = [uint8 OpNil, uint8 OpReturn] \<and> Type (current (p c')) = TNumber)
              (emitReturn (advance ?c))"
    by code_simp
  show ?thesis
    unfolding A B C using ea eb ec by (simp add: returns_def)
qed

subsection \<open>C7: the invalid assignment target\<close>

text \<open>
  What \<open>parsePrecedence\<close> does after the prefix rule and the loop of infix rules have left the
  compiler \<open>c2\<close>.  The assignment flag is \<open>prec < Assignment\<close>, which holds exactly at the
  level None.  When the flag is true and the current token is \<^verbatim>\<open>=\<close>, that token is consumed,
  \<open>errorAt\<close> is called on it with the message \<^verbatim>\<open>Invalid assignment target.\<close>, and the
  right-hand expression is parsed; the diagnostics are then those that \<open>errorAt\<close> left.
  Otherwise \<open>parsePrecedence\<close> returns \<open>c2\<close>.  The examples are \<^verbatim>\<open>1 = 2\<close> at the levels None
  and Assignment.
\<close>

lemma invalid_assignment_target:
  assumes "prefixRule (parseRules E (Type (current (p c)))) = Some f"
    and "callRule E (parsePrecedence E n) f (prec < PrecedenceAssignment) (advance c) = Some (Inr c1)"
    and "infixLoop E n prec (prec < PrecedenceAssignment) c1 = Some (Inr c2)"
  shows "(prec < PrecedenceAssignment \<longleftrightarrow> prec = PrecedenceNone) \<and>
         (prec < PrecedenceAssignment \<and> check c2 TEqual \<longrightarrow>
            parsePrecedence E (Suc n) prec c =
              expression E n (errorAt (advance c2) (current (p c2)) ''Invalid assignment target.'') \<and>
            (\<not> panicMode (advance c2) \<longrightarrow>
               map message (stderr (errorAt (advance c2) (current (p c2)) ''Invalid assignment target.'')) =
               map message (stderr (advance c2)) @ [''Invalid assignment target.'']) \<and>
            (parsePrecedence E (Suc n) prec c = Some (Inr c') \<longrightarrow>
               stderr c' = stderr (errorAt (advance c2) (current (p c2)) ''Invalid assignment target.''))) \<and>
         (\<not> (prec < PrecedenceAssignment \<and> check c2 TEqual) \<longrightarrow>
            parsePrecedence E (Suc n) prec c = Some (Inr c2))"
proof -
  let ?e = "errorAt (advance c2) (current (p c2)) ''Invalid assignment target.''"
  have u: "parsePrecedence E (Suc n) prec c =
            (if prec < PrecedenceAssignment \<and> check c2 TEqual then expression E n ?e else Some (Inr c2))"
    unfolding parsePrecedence_unfold assms(1) using assms(2,3) by (simp add: andThen_def)
  have n: "stderr c' = stderr ?e"
    if "prec < PrecedenceAssignment \<and> check c2 TEqual" "parsePrecedence E (Suc n) prec c = Some (Inr c')"
  proof -
    from that u have "expression E n ?e = Some (Inr c')" by simp
    from respected_expression[OF respected_errStep this] show ?thesis
      by (simp add: errStep_def)
  qed
  have m: "\<not> panicMode (advance c2) \<longrightarrow>
             map message (stderr ?e) = map message (stderr (advance c2)) @ [''Invalid assignment target.'']"
    by (simp add: errorAt_def)
  have f: "prec < PrecedenceAssignment \<longleftrightarrow> prec = PrecedenceNone"
    by (auto simp: PrecedenceAssignment_def PrecedenceNone_def)
  from u n m f show ?thesis by auto
qed

lemma invalid_assignment_target_examples:
  "returns (parsePrecedence specEnv (Suc 8) PrecedenceNone
              (leadingLoop (fresh [tok TNumber ''1'', tok TEqual ''='', tok TNumber ''2''])))
     (\<lambda>c'. map message (stderr c') = [''Invalid assignment target.''] \<and>
            constants (chunk c') = [Number 1, Number 2] \<and> Type (current (p c')) = TEof) \<and>
   returns (parsePrecedence specEnv (Suc 8) PrecedenceAssignment
              (leadingLoop (fresh [tok TNumber ''1'', tok TEqual ''='', tok TNumber ''2''])))
     (\<lambda>c'. stderr c' = [] \<and> constants (chunk c') = [Number 1] \<and> Type (current (p c')) = TEqual)"
proof -
  let ?c = "leadingLoop (fresh [tok TNumber ''1'', tok TEqual ''='', tok TNumber ''2''])"
  let ?c2 = "emitConstant (advance ?c) (Number 1)"
  let ?e = "errorAt (advance ?c2) (current (p ?c2)) ''Invalid assignment target.''"
  have pre: "prefixRule (parseRules specEnv (Type (current (p ?c)))) = Some NumberFn"
    by code_simp
  have r1: "callRule specEnv (parsePrecedence specEnv 8) NumberFn (PrecedenceNone < PrecedenceAssignment) (advance ?c)
              = Some (Inr ?c2)"
    by code_simp
  have l1: "infixLoop specEnv 8 PrecedenceNone (PrecedenceNone < PrecedenceAssignment) ?c2 = Some (Inr ?c2)"
    by code_simp
  have r2: "callRule specEnv (parsePrecedence specEnv 8) NumberFn (PrecedenceAssignment < PrecedenceAssignment) (advance ?c)
              = Some (Inr ?c2)"
    by code_simp
  have l2: "infixLoop specEnv 8 PrecedenceAssignment (PrecedenceAssignment < PrecedenceAssignment) ?c2 = Some (Inr ?c2)"
    by code_simp
  have g1: "PrecedenceNone < PrecedenceAssignment \<and> check ?c2 TEqual" by code_simp
  have g2: "\<not> (PrecedenceAssignment < PrecedenceAssignment \<and> check ?c2 TEqual)" by simp
  note A = invalid_assignment_target[OF pre r1 l1, THEN conjunct2, THEN conjunct1, THEN mp, OF g1, THEN conjunct1]
  note B = invalid_assignment_target[OF pre r2 l2, THEN conjunct2, THEN conjunct2, THEN mp, OF g2]
  have ea: "returns (expression specEnv 8 ?e)
     (\<lambda>c'. map message (stderr c') = [''Invalid assignment target.''] \<and>
            constants (chunk c') = [Number 1, Number 2] \<and> Type (current (p c')) = TEof)"
    by code_simp
  have eb: "(\<lambda>c'. stderr c' = [] \<and> constants (chunk c') = [Number 1] \<and> Type (current (p c')) = TEqual) ?c2"
    by code_simp
  show ?thesis
    unfolding A B using ea eb by (simp add: returns_def)
qed


end
